theory Spec2Isabelle
  imports Main
begin

section \<open>The refresh route of pr-review\<close>

text \<open>
  The development embeds \<^verbatim>\<open>src/app/api/refresh/route.ts\<close> (the typed handler
  \<^verbatim>\<open>GET\<close>) and its untyped variant, which differs in the comparator of the sort
  only. The handler fetches the repositories of an organisation, the open pull requests
  of each repository and the reviews of each pull request that is not a draft, counts
  the approving reviews, sorts the records by that count and writes them to Firestore.

  The remote API, the document store and the clock are the environment of the handler.
  They are explicit arguments of the model; the handler returns its HTTP response
  together with the store it leaves behind and the log of the calls it has made.
\<close>

subsection \<open>Data received from the source API\<close>

text \<open>
  The interfaces \<^verbatim>\<open>GitHubUser\<close>, \<^verbatim>\<open>GitHubPullRequest\<close> and
  \<^verbatim>\<open>GitHubReview\<close> of the route, with the fields the handler reads. The elements of
  the repository list are untyped in the source; the handler reads \<^verbatim>\<open>repo.name\<close> only.
  Pull-request numbers are the positive integers of the source API, hence \<open>nat\<close>.
  The member \<^verbatim>\<open>user\<close> of a pull request is \<open>None\<close> when the payload has none (or
  has \<^verbatim>\<open>null\<close>): then \<^verbatim>\<open>pr.user.login\<close> throws a \<^verbatim>\<open>TypeError\<close>. The other
  members are read without a throw and are taken as present.
\<close>

record GitHubUser =
  login :: string
  id_user :: nat

record GitHubRepo =
  name :: string

record GitHubPullRequest =
  number :: nat
  title :: string
  draft :: bool
  html_url :: string
  updated_at :: string
  user :: "GitHubUser option"

record GitHubReview =
  state :: string

text \<open>
  The interface \<^verbatim>\<open>PR\<close>: the record that is collected, sorted and persisted. Its
  optional fields are all set at the one place where the handler builds a record.
\<close>

record PR =
  id_pr :: string
  title :: string
  repo :: string
  author :: string
  url :: string
  approvals :: nat
  updated_at :: string

subsection \<open>The environment\<close>

text \<open>
  What was thrown inside the \<^verbatim>\<open>try\<close> block: the rejection of an awaited promise
  (with its message), or the \<^verbatim>\<open>TypeError\<close> of iterating or filtering a payload that
  is not an array, or of reading \<^verbatim>\<open>login\<close> of a user that is not there.
\<close>

datatype js_error = Rejection string | TypeError

text \<open>
  \<^verbatim>\<open>await fetch(url, ...)\<close> followed by \<^verbatim>\<open>await res.json()\<close> either rejects (a
  transport error, or a body that is not JSON) or resolves to the parsed payload. \<^verbatim>\<open>fetch\<close>
  resolves whatever the status of the response is, and the handler reads neither
  \<^verbatim>\<open>res.ok\<close> nor \<^verbatim>\<open>res.status\<close>. A payload is \<^verbatim>\<open>null\<close>, or
  an object that is not an array (the body \<^verbatim>\<open>{ message, documentation_url }\<close> that
  the source API sends with an error status: not iterable, without \<^verbatim>\<open>length\<close> and
  \<^verbatim>\<open>filter\<close>), or an array of objects of the declared interface.
\<close>

datatype 'a payload = Null | Object | Array "'a list"

datatype 'a fetched = Rejected string | Resolved "'a payload"

text \<open>
  The three kinds of request, with the path parameters of their URLs. Every request
  carries the same two headers (the bearer token and the accepted media type); the log
  of requests leaves them out.
\<close>

datatype request =
    List_repos
  | List_pulls string
  | List_reviews string nat

record config =
  GITHUB_ORG :: string
  GITHUB_TOKEN :: string

definition baseUri :: string where
  "baseUri = ''https://api.github.com/''"

text \<open>
  \<^verbatim>\<open>String(n)\<close> of a non-negative integer, as a template literal renders
  \<^verbatim>\<open>pr.number\<close>: its decimal numeral.
\<close>

definition digit_char :: "nat \<Rightarrow> char" where
  "digit_char d = ''0123456789'' ! d"

fun string_of_nat :: "nat \<Rightarrow> string" where
  "string_of_nat n =
     (if n < 10 then [digit_char n]
      else string_of_nat (n div 10) @ [digit_char (n mod 10)])"

declare string_of_nat.simps [simp del]

text \<open>The URL of each request, from the template literals of the handler.\<close>

fun request_url :: "config \<Rightarrow> request \<Rightarrow> string" where
  "request_url cfg List_repos = baseUri @ ''orgs/'' @ GITHUB_ORG cfg @ ''/repos''"
| "request_url cfg (List_pulls repo_name) =
     baseUri @ ''repos/'' @ GITHUB_ORG cfg @ ''/'' @ repo_name @ ''/pulls?state=open&per_page=20''"
| "request_url cfg (List_reviews repo_name n) =
     baseUri @ ''repos/'' @ GITHUB_ORG cfg @ ''/'' @ repo_name @ ''/pulls/'' @ string_of_nat n
       @ ''/reviews''"

text \<open>
  The environment answers each request as a function of the request (the source is not
  changing while one refresh runs): the outcome of fetching and parsing the body, and the
  status of the response (which the handler never reads). It says which document writes
  the store rejects, and gives the time that \<^verbatim>\<open>new Date().toISOString()\<close> reads.
\<close>

record env =
  repos_api :: "GitHubRepo fetched"
  pulls_api :: "string \<Rightarrow> GitHubPullRequest fetched"
  reviews_api :: "string \<Rightarrow> nat \<Rightarrow> GitHubReview fetched"
  http_status :: "request \<Rightarrow> nat"
  setDoc_rejects :: "string \<Rightarrow> string \<Rightarrow> string option"
  now :: string

subsection \<open>Steps 1 and 2: the fetch phase\<close>

text \<open>
  The state of the two nested loops: the array \<^verbatim>\<open>allPRs\<close> and the log of the requests
  issued so far. Each loop returns what was thrown, if anything, with the state reached.
\<close>

record fetch_state =
  allPRs :: "PR list"
  requests :: "request list"

definition approvalCount :: "GitHubReview list \<Rightarrow> nat" where
  "approvalCount reviews = length (filter (\<lambda>r. state r = ''APPROVED'') reviews)"

definition make_PR ::
  "config \<Rightarrow> string \<Rightarrow> GitHubPullRequest \<Rightarrow> GitHubUser \<Rightarrow> nat \<Rightarrow> PR" where
  "make_PR cfg repo_name pr u n =
     \<lparr> id_pr = repo_name @ ''-'' @ string_of_nat (number pr),
       title = GitHubPullRequest.title pr,
       repo = GITHUB_ORG cfg @ ''/'' @ repo_name,
       author = login u,
       url = html_url pr,
       approvals = n,
       updated_at = GitHubPullRequest.updated_at pr \<rparr>"

text \<open>
  The inner loop, over the pull requests left by the draft filter. The reviews are
  fetched and counted first; the object literal that is pushed then reads
  \<^verbatim>\<open>pr.user.login\<close>.
\<close>

fun pr_loop ::
  "config \<Rightarrow> env \<Rightarrow> string \<Rightarrow> GitHubPullRequest list \<Rightarrow> fetch_state
     \<Rightarrow> js_error option \<times> fetch_state" where
  "pr_loop cfg e repo_name [] s = (None, s)"
| "pr_loop cfg e repo_name (pr # prs) s =
     (let s1 = s\<lparr>requests := requests s @ [List_reviews repo_name (number pr)]\<rparr> in
      case reviews_api e repo_name (number pr) of
        Rejected msg \<Rightarrow> (Some (Rejection msg), s1)
      | Resolved Null \<Rightarrow> (Some TypeError, s1)
      | Resolved Object \<Rightarrow> (Some TypeError, s1)
      | Resolved (Array reviews) \<Rightarrow>
          (case user pr of
             None \<Rightarrow> (Some TypeError, s1)
           | Some u \<Rightarrow>
               pr_loop cfg e repo_name prs
                 (s1\<lparr>allPRs :=
                       allPRs s1 @ [make_PR cfg repo_name pr u (approvalCount reviews)]\<rparr>)))"

text \<open>The outer loop, over the repositories.\<close>

fun repo_loop ::
  "config \<Rightarrow> env \<Rightarrow> GitHubRepo list \<Rightarrow> fetch_state \<Rightarrow> js_error option \<times> fetch_state" where
  "repo_loop cfg e [] s = (None, s)"
| "repo_loop cfg e (r # rs) s =
     (let s1 = s\<lparr>requests := requests s @ [List_pulls (name r)]\<rparr> in
      case pulls_api e (name r) of
        Rejected msg \<Rightarrow> (Some (Rejection msg), s1)
      | Resolved Null \<Rightarrow> repo_loop cfg e rs s1
      | Resolved Object \<Rightarrow> (Some TypeError, s1)
      | Resolved (Array pulls) \<Rightarrow>
          if length pulls = 0 then repo_loop cfg e rs s1
          else (case pr_loop cfg e (name r) (filter (\<lambda>p. \<not> draft p) pulls) s1 of
                  (Some err, s2) \<Rightarrow> (Some err, s2)
                | (None, s2) \<Rightarrow> repo_loop cfg e rs s2))"

definition fetch_phase :: "config \<Rightarrow> env \<Rightarrow> js_error option \<times> fetch_state" where
  "fetch_phase cfg e =
     (let s0 = \<lparr>allPRs = [], requests = [List_repos]\<rparr> in
      case repos_api e of
        Rejected msg \<Rightarrow> (Some (Rejection msg), s0)
      | Resolved Null \<Rightarrow> (Some TypeError, s0)
      | Resolved Object \<Rightarrow> (Some TypeError, s0)
      | Resolved (Array repos) \<Rightarrow> repo_loop cfg e repos s0)"

subsection \<open>Step 3: the sort\<close>

text \<open>
  \<^verbatim>\<open>Array.prototype.sort\<close> with a comparator is a stable sort: an element goes before
  another when the comparator says so, and elements that compare equal keep their order.
  Insertion from the right end of the array computes it.
\<close>

fun insert_js :: "('a \<Rightarrow> 'a \<Rightarrow> int) \<Rightarrow> 'a \<Rightarrow> 'a list \<Rightarrow> 'a list" where
  "insert_js cmp x [] = [x]"
| "insert_js cmp x (y # ys) =
     (if cmp x y \<le> 0 then x # y # ys else y # insert_js cmp x ys)"

fun sort_js :: "('a \<Rightarrow> 'a \<Rightarrow> int) \<Rightarrow> 'a list \<Rightarrow> 'a list" where
  "sort_js cmp [] = []"
| "sort_js cmp (x # xs) = insert_js cmp x (sort_js cmp xs)"

text \<open>\<^verbatim>\<open>n || 0\<close> for a number \<open>n\<close>: the right operand when \<open>n\<close> is falsy, that is \<open>0\<close>.\<close>

definition or_zero :: "nat \<Rightarrow> nat" where
  "or_zero n = (if n = 0 then 0 else n)"

text \<open>The comparator of the typed route, and the comparator of the untyped variant.\<close>

definition compare_typed :: "PR \<Rightarrow> PR \<Rightarrow> int" where
  "compare_typed a b = int (or_zero (approvals a)) - int (or_zero (approvals b))"

definition compare_untyped :: "PR \<Rightarrow> PR \<Rightarrow> int" where
  "compare_untyped a b = int (approvals a) - int (approvals b)"

subsection \<open>Steps 4 and 5: the document store\<close>

text \<open>
  A document is a finite map from field names to values; the handler writes strings and
  counts. A store maps the name of a collection and the key of a document to the document.
\<close>

datatype fs_value = Str string | Num nat

type_synonym document = "string \<rightharpoonup> fs_value"

type_synonym firestore = "string \<Rightarrow> string \<rightharpoonup> document"

type_synonym doc_write = "string \<times> string \<times> document"

text \<open>
  Modelled from the spec: the Firestore client (\<^verbatim>\<open>collection\<close>, \<^verbatim>\<open>doc\<close> and
  \<^verbatim>\<open>setDoc\<close> of the firebase package, on the handle \<^verbatim>\<open>db\<close> of the module
  \<^verbatim>\<open>../firebase\<close>) is not among the sources. A write with \<^verbatim>\<open>{ merge: true }\<close>
  creates the document when there is none under the key; otherwise the fields of the new
  data overwrite the matching fields and the other fields of the old document survive.
\<close>

definition merge_doc :: "firestore \<Rightarrow> string \<Rightarrow> string \<Rightarrow> document \<Rightarrow> firestore" where
  "merge_doc d col key data =
     d(col := (d col)(key \<mapsto> (case d col key of None \<Rightarrow> data | Some old \<Rightarrow> old ++ data)))"

text \<open>
  The state of the write phase: the store and the log of the writes issued. A write that
  the store rejects is logged and leaves the store as it is; its promise rejects with the
  message.
\<close>

record sink_state =
  db :: firestore
  writes :: "doc_write list"

definition setDoc ::
  "env \<Rightarrow> string \<Rightarrow> string \<Rightarrow> document \<Rightarrow> sink_state \<Rightarrow> string option \<times> sink_state" where
  "setDoc e col key data s =
     (let s1 = s\<lparr>writes := writes s @ [(col, key, data)]\<rparr> in
      case setDoc_rejects e col key of
        Some msg \<Rightarrow> (Some msg, s1)
      | None \<Rightarrow> (None, s1\<lparr>db := merge_doc (db s1) col key data\<rparr>))"

text \<open>The object \<^verbatim>\<open>pr\<close> as the document data passed to \<^verbatim>\<open>setDoc\<close>.\<close>

definition PR_doc :: "PR \<Rightarrow> document" where
  "PR_doc pr =
     [''id'' \<mapsto> Str (id_pr pr),
      ''title'' \<mapsto> Str (title pr),
      ''repo'' \<mapsto> Str (repo pr),
      ''author'' \<mapsto> Str (author pr),
      ''url'' \<mapsto> Str (url pr),
      ''updated_at'' \<mapsto> Str (updated_at pr),
      ''approvals'' \<mapsto> Num (approvals pr)]"

text \<open>
  \<^verbatim>\<open>Promise.all(allPRs.map((pr) => setDoc(doc(colRef, pr.id), pr, { merge: true })))\<close>:
  every write is issued, in the order of the array; the writes that the store accepts are
  applied whether or not another one is rejected; the whole rejects with the first
  rejection.
\<close>

fun upsert_all :: "env \<Rightarrow> PR list \<Rightarrow> sink_state \<Rightarrow> string option \<times> sink_state" where
  "upsert_all e [] s = (None, s)"
| "upsert_all e (pr # prs) s =
     (case setDoc e ''prs'' (id_pr pr) (PR_doc pr) s of
        (r, s1) \<Rightarrow>
          (case upsert_all e prs s1 of
             (r', s2) \<Rightarrow> ((case r of Some msg \<Rightarrow> Some msg | None \<Rightarrow> r'), s2)))"

definition metadata_doc :: "env \<Rightarrow> nat \<Rightarrow> document" where
  "metadata_doc e n = [''lastRefresh'' \<mapsto> Str (now e), ''lastRefreshCount'' \<mapsto> Num n]"

subsection \<open>The handler\<close>

text \<open>
  The response is \<^verbatim>\<open>{ success: true, count }\<close> with the default status 200, or
  \<^verbatim>\<open>{ success: false, error }\<close> with status 500.
\<close>

datatype response_body = Refreshed nat | Failed js_error

record response =
  status :: nat
  body :: response_body

fun success :: "response_body \<Rightarrow> bool" where
  "success (Refreshed n) = True"
| "success (Failed err) = False"

record outcome =
  response :: response
  store :: firestore
  issued :: "request list"
  written :: "doc_write list"
  console :: "js_error list"

text \<open>The \<^verbatim>\<open>catch\<close> block: log the error, answer with status 500.\<close>

definition catch_block :: "js_error \<Rightarrow> request list \<Rightarrow> sink_state \<Rightarrow> outcome" where
  "catch_block err reqs s =
     \<lparr> response = \<lparr>status = 500, body = Failed err\<rparr>,
       store = db s, issued = reqs, written = writes s, console = [err] \<rparr>"

text \<open>The typed route, \<^verbatim>\<open>src/app/api/refresh/route.ts\<close>.\<close>

definition GET :: "config \<Rightarrow> env \<Rightarrow> firestore \<Rightarrow> outcome" where
  "GET cfg e db0 =
     (case fetch_phase cfg e of
        (Some err, fs) \<Rightarrow> catch_block err (requests fs) \<lparr>db = db0, writes = []\<rparr>
      | (None, fs) \<Rightarrow>
          (let sorted_prs = sort_js compare_typed (allPRs fs) in
           case upsert_all e sorted_prs \<lparr>db = db0, writes = []\<rparr> of
             (Some msg, s1) \<Rightarrow> catch_block (Rejection msg) (requests fs) s1
           | (None, s1) \<Rightarrow>
               (case setDoc e ''metadata'' ''system''
                       (metadata_doc e (length sorted_prs)) s1 of
                  (Some msg, s2) \<Rightarrow> catch_block (Rejection msg) (requests fs) s2
                | (None, s2) \<Rightarrow>
                    \<lparr> response = \<lparr>status = 200, body = Refreshed (length sorted_prs)\<rparr>,
                      store = db s2, issued = requests fs, written = writes s2,
                      console = [] \<rparr>)))"

text \<open>The untyped variant of the route: the same steps, with its own comparator.\<close>

definition GET_untyped :: "config \<Rightarrow> env \<Rightarrow> firestore \<Rightarrow> outcome" where
  "GET_untyped cfg e db0 =
     (case fetch_phase cfg e of
        (Some err, fs) \<Rightarrow> catch_block err (requests fs) \<lparr>db = db0, writes = []\<rparr>
      | (None, fs) \<Rightarrow>
          (let sorted_prs = sort_js compare_untyped (allPRs fs) in
           case upsert_all e sorted_prs \<lparr>db = db0, writes = []\<rparr> of
             (Some msg, s1) \<Rightarrow> catch_block (Rejection msg) (requests fs) s1
           | (None, s1) \<Rightarrow>
               (case setDoc e ''metadata'' ''system''
                       (metadata_doc e (length sorted_prs)) s1 of
                  (Some msg, s2) \<Rightarrow> catch_block (Rejection msg) (requests fs) s2
                | (None, s2) \<Rightarrow>
                    \<lparr> response = \<lparr>status = 200, body = Refreshed (length sorted_prs)\<rparr>,
                      store = db s2, issued = requests fs, written = writes s2,
                      console = [] \<rparr>)))"

subsection \<open>The source data, as the claims speak of it\<close>

text \<open>
  The lists that the source API holds for the organisation, a repository and a pull
  request (empty where the call does not resolve to an array), and the records that the
  specification expects: for each repository in list order, for each of its pull requests
  that is not a draft in list order, the record with the number of its reviews whose
  state is \<^verbatim>\<open>APPROVED\<close> (no record for an entry without a user, for which none can be
  built).
\<close>

definition repos_of :: "env \<Rightarrow> GitHubRepo list" where
  "repos_of e = (case repos_api e of Resolved (Array repos) \<Rightarrow> repos | _ \<Rightarrow> [])"

definition pulls_of :: "env \<Rightarrow> string \<Rightarrow> GitHubPullRequest list" where
  "pulls_of e repo_name =
     (case pulls_api e repo_name of Resolved (Array pulls) \<Rightarrow> pulls | _ \<Rightarrow> [])"

definition reviews_of :: "env \<Rightarrow> string \<Rightarrow> nat \<Rightarrow> GitHubReview list" where
  "reviews_of e repo_name n =
     (case reviews_api e repo_name n of Resolved (Array reviews) \<Rightarrow> reviews | _ \<Rightarrow> [])"

definition pull_records :: "config \<Rightarrow> env \<Rightarrow> string \<Rightarrow> GitHubPullRequest \<Rightarrow> PR list" where
  "pull_records cfg e repo_name p =
     (case user p of
        None \<Rightarrow> []
      | Some u \<Rightarrow>
          [make_PR cfg repo_name p u
             (count_list (map state (reviews_of e repo_name (number p))) ''APPROVED'')])"

definition repo_records :: "config \<Rightarrow> env \<Rightarrow> GitHubRepo \<Rightarrow> PR list" where
  "repo_records cfg e r =
     concat (map (pull_records cfg e (name r))
       (filter (\<lambda>p. \<not> draft p) (pulls_of e (name r))))"

definition encounter_order :: "config \<Rightarrow> env \<Rightarrow> PR list" where
  "encounter_order cfg e = concat (map (repo_records cfg e) (repos_of e))"

definition repo_requests :: "env \<Rightarrow> GitHubRepo \<Rightarrow> request list" where
  "repo_requests e r =
     List_pulls (name r) #
       map (\<lambda>p. List_reviews (name r) (number p)) (filter (\<lambda>p. \<not> draft p) (pulls_of e (name r)))"


text \<open>
  The failure of a call in the words of the specification (its sections 4.1 and 7): a
  network failure, a response whose status is not a success status, or a malformed
  payload, that is a payload that is not a list (the pull list may be absent) or that has
  an entry without an expected member.
\<close>

definition non_success :: "nat \<Rightarrow> bool" where
  "non_success st \<longleftrightarrow> st < 200 \<or> 300 \<le> st"

fun rejected :: "env \<Rightarrow> request \<Rightarrow> bool" where
  "rejected e List_repos = (case repos_api e of Rejected msg \<Rightarrow> True | Resolved x \<Rightarrow> False)"
| "rejected e (List_pulls repo_name) =
     (case pulls_api e repo_name of Rejected msg \<Rightarrow> True | Resolved x \<Rightarrow> False)"
| "rejected e (List_reviews repo_name n) =
     (case reviews_api e repo_name n of Rejected msg \<Rightarrow> True | Resolved x \<Rightarrow> False)"

fun malformed :: "env \<Rightarrow> request \<Rightarrow> bool" where
  "malformed e List_repos =
     (case repos_api e of Resolved Null \<Rightarrow> True | Resolved Object \<Rightarrow> True | _ \<Rightarrow> False)"
| "malformed e (List_pulls repo_name) =
     (case pulls_api e repo_name of
        Resolved Object \<Rightarrow> True
      | Resolved (Array pulls) \<Rightarrow> (\<exists>p\<in>set pulls. user p = None)
      | _ \<Rightarrow> False)"
| "malformed e (List_reviews repo_name n) =
     (case reviews_api e repo_name n of
        Resolved Null \<Rightarrow> True | Resolved Object \<Rightarrow> True | _ \<Rightarrow> False)"

definition source_call_failed :: "env \<Rightarrow> request \<Rightarrow> bool" where
  "source_call_failed e q \<longleftrightarrow> rejected e q \<or> non_success (http_status e q) \<or> malformed e q"

definition from_pull :: "config \<Rightarrow> env \<Rightarrow> string \<Rightarrow> GitHubPullRequest \<Rightarrow> PR \<Rightarrow> bool" where
  "from_pull cfg e n p r \<longleftrightarrow>
     (\<exists>reviews u. reviews_api e n (number p) = Resolved (Array reviews) \<and> user p = Some u \<and>
        r = make_PR cfg n p u (count_list (map state reviews) ''APPROVED''))"

definition record_write :: "PR \<Rightarrow> doc_write" where
  "record_write pr = (''prs'', id_pr pr, PR_doc pr)"

definition base_doc :: "firestore \<Rightarrow> string \<Rightarrow> document" where
  "base_doc d key = (case d ''prs'' key of None \<Rightarrow> Map.empty | Some old \<Rightarrow> old)"

definition lastRefreshCount :: "firestore \<Rightarrow> fs_value option" where
  "lastRefreshCount d =
     (case d ''metadata'' ''system'' of None \<Rightarrow> None | Some doc \<Rightarrow> doc ''lastRefreshCount'')"

text \<open>The document under a key of the record collection holds the key as its \<^verbatim>\<open>id\<close>.\<close>

definition keyed :: "firestore \<Rightarrow> string \<Rightarrow> bool" where
  "keyed d k \<longleftrightarrow> (\<exists>doc. d ''prs'' k = Some doc \<and> doc ''id'' = Some (Str k))"

subsection \<open>A sample organisation\<close>

text \<open>
  An organisation with three repositories. \<^verbatim>\<open>web\<close> has three open pull requests, the
  second one a draft; \<^verbatim>\<open>api\<close> has one; the pull list of \<^verbatim>\<open>docs\<close> is
  \<^verbatim>\<open>null\<close>. The store accepts every write and already holds a document for the first
  pull request of \<^verbatim>\<open>web\<close>, with a field that the handler does not write.
\<close>

definition acme :: config where
  "acme = \<lparr>GITHUB_ORG = ''acme'', GITHUB_TOKEN = ''t0k3n''\<rparr>"

definition octocat :: GitHubUser where
  "octocat = \<lparr>login = ''octocat'', id_user = 583231\<rparr>"

definition pull :: "nat \<Rightarrow> string \<Rightarrow> bool \<Rightarrow> GitHubPullRequest" where
  "pull n t d =
     \<lparr> number = n, title = t, draft = d, html_url = ''https://github.com/acme/pull'',
       updated_at = ''2024-05-01T10:00:00Z'', user = Some octocat \<rparr>"

definition review :: "string \<Rightarrow> GitHubReview" where
  "review st = \<lparr>state = st\<rparr>"

definition acme_env :: env where
  "acme_env =
     \<lparr> repos_api = Resolved (Array [\<lparr>name = ''web''\<rparr>, \<lparr>name = ''api''\<rparr>, \<lparr>name = ''docs''\<rparr>]),
       pulls_api = (\<lambda>n.
          if n = ''web''
          then Resolved (Array [pull 12 ''Add login'' False, pull 13 ''WIP'' True,
                               pull 15 ''Fix typo'' False])
          else if n = ''api'' then Resolved (Array [pull 7 ''Bump deps'' False])
          else Resolved Null),
       reviews_api = (\<lambda>n k.
          if n = ''web'' \<and> k = 12
          then Resolved (Array [review ''APPROVED'', review ''COMMENTED'', review ''APPROVED''])
          else if n = ''api'' \<and> k = 7
          then Resolved (Array [review ''APPROVED'', review ''approved'', review ''APPROVED''])
          else Resolved (Array [])),
       http_status = (\<lambda>q. 200),
       setDoc_rejects = (\<lambda>c k. None),
       now = ''2024-05-02T08:00:00.000Z'' \<rparr>"

definition old_db :: firestore where
  "old_db =
     (\<lambda>c. Map.empty)
       (''prs'' := [''web-12'' \<mapsto> [''approvals'' \<mapsto> Num 0, ''label'' \<mapsto> Str ''urgent'']])"

text \<open>One repository with one pull request and three reviews, two of them approving.\<close>

definition scenario_D :: env where
  "scenario_D =
     \<lparr> repos_api = Resolved (Array [\<lparr>name = ''web''\<rparr>]),
       pulls_api = (\<lambda>n. Resolved (Array [pull 12 ''Add login'' False])),
       reviews_api = (\<lambda>n k.
          Resolved (Array [review ''APPROVED'', review ''COMMENTED'', review ''APPROVED''])),
       http_status = (\<lambda>q. 200),
       setDoc_rejects = (\<lambda>c k. None),
       now = ''2024-05-02T08:00:00.000Z'' \<rparr>"



text \<open>
  The sample organisation when the pull request of \<^verbatim>\<open>api\<close> comes without a user.
\<close>

definition acme_anon :: env where
  "acme_anon =
     acme_env\<lparr>pulls_api := (\<lambda>n.
       if n = ''api'' then Resolved (Array [(pull 7 ''Bump deps'' False)\<lparr>user := None\<rparr>])
       else pulls_api acme_env n)\<rparr>"

text \<open>
  The source API answers every call with status 500, and the repository list with the
  body \<^verbatim>\<open>[]\<close>.
\<close>

definition acme_500 :: env where
  "acme_500 = acme_env\<lparr>repos_api := Resolved (Array []), http_status := (\<lambda>q. 500)\<rparr>"

text \<open>An organisation without repositories.\<close>

definition acme_empty :: env where
  "acme_empty = acme_env\<lparr>repos_api := Resolved (Array [])\<rparr>"

section \<open>Properties of the model\<close>

subsection \<open>Decimal numerals and record ids\<close>

lemma digit_cases: "d < 10 \<Longrightarrow> d = 0 \<or> d = 1 \<or> d = 2 \<or> d = 3 \<or> d = 4 \<or> d = 5 \<or> d = 6 \<or> d = 7 \<or> d = 8 \<or> d = (9::nat)"
  by arith

lemma of_char_digit_char:
  assumes "d < 10" shows "(of_char (digit_char d) :: nat) = 48 + d"
  using digit_cases [OF assms] by (elim disjE) (simp_all add: digit_char_def)

lemma digit_char_inj:
  assumes "d < 10" "d' < 10" "digit_char d = digit_char d'"
  shows "d = d'"
proof -
  have "48 + d = (of_char (digit_char d) :: nat)"
    using assms(1) by (simp only: of_char_digit_char)
  also have "\<dots> = 48 + d'"
    using assms(2) by (simp only: assms(3) of_char_digit_char)
  finally show ?thesis by simp
qed

lemma digit_char_not_dash:
  assumes "d < 10" shows "digit_char d \<noteq> CHR ''-''"
proof
  assume "digit_char d = CHR ''-''"
  then have "(of_char (digit_char d) :: nat) = 45" by simp
  with of_char_digit_char [OF assms] show False by simp
qed

lemma string_of_nat_small: "n < 10 \<Longrightarrow> string_of_nat n = [digit_char n]"
  by (subst string_of_nat.simps) simp

lemma string_of_nat_large:
  "\<not> n < 10 \<Longrightarrow> string_of_nat n = string_of_nat (n div 10) @ [digit_char (n mod 10)]"
  by (subst string_of_nat.simps) simp

lemma string_of_nat_not_Nil: "string_of_nat n \<noteq> []"
  by (cases "n < 10") (simp_all add: string_of_nat_small string_of_nat_large)

lemma string_of_nat_no_dash: "CHR ''-'' \<notin> set (string_of_nat n)"
proof (induction n rule: string_of_nat.induct)
  case (1 n)
  show ?case
  proof (cases "n < 10")
    case True
    then show ?thesis
      using digit_char_not_dash [of n] by (simp add: string_of_nat_small)
  next
    case False
    have "n mod 10 < 10" by simp
    then have "digit_char (n mod 10) \<noteq> CHR ''-''"
      by (rule digit_char_not_dash)
    with False 1 show ?thesis
      by (auto simp: string_of_nat_large)
  qed
qed

lemma string_of_nat_inj: "string_of_nat m = string_of_nat n \<Longrightarrow> m = n"
proof (induction m arbitrary: n rule: string_of_nat.induct)
  case (1 m)
  note eq = \<open>string_of_nat m = string_of_nat n\<close>
  show ?case
  proof (cases "m < 10")
    case m: True
    show ?thesis
    proof (cases "n < 10")
      case True
      from eq have "digit_char m = digit_char n"
        by (simp add: string_of_nat_small m True)
      with m True show ?thesis by (rule digit_char_inj)
    next
      case False
      from eq have "[digit_char m] = string_of_nat (n div 10) @ [digit_char (n mod 10)]"
        by (simp add: string_of_nat_small [OF m] string_of_nat_large [OF False])
      then have "string_of_nat (n div 10) = []" by simp
      then show ?thesis by (simp add: string_of_nat_not_Nil)
    qed
  next
    case m: False
    show ?thesis
    proof (cases "n < 10")
      case True
      from eq have "string_of_nat (m div 10) @ [digit_char (m mod 10)] = [digit_char n]"
        by (simp add: string_of_nat_small [OF True] string_of_nat_large [OF m])
      then have "string_of_nat (m div 10) = []" by simp
      then show ?thesis by (simp add: string_of_nat_not_Nil)
    next
      case False
      from eq have "string_of_nat (m div 10) @ [digit_char (m mod 10)]
          = string_of_nat (n div 10) @ [digit_char (n mod 10)]"
        by (simp add: string_of_nat_large [OF False] string_of_nat_large [OF m])
      then have hd: "string_of_nat (m div 10) = string_of_nat (n div 10)"
        and dg: "digit_char (m mod 10) = digit_char (n mod 10)"
        by simp_all
      from "1.IH" [OF m hd] have q: "m div 10 = n div 10" .
      have "m mod 10 < 10" "n mod 10 < 10" by simp_all
      then have r: "m mod 10 = n mod 10"
        using dg by (rule digit_char_inj)
      have "m = 10 * (m div 10) + m mod 10" by simp
      also have "\<dots> = 10 * (n div 10) + n mod 10" by (simp only: q r)
      also have "\<dots> = n" by simp
      finally show ?thesis .
    qed
  qed
qed

lemma takeWhile_dash:
  assumes "CHR ''-'' \<notin> set d"
  shows "takeWhile (\<lambda>c. c \<noteq> CHR ''-'') (d @ CHR ''-'' # x) = d"
  using assms by (induction d) auto

lemma dash_split:
  assumes d1: "CHR ''-'' \<notin> set d1" and d2: "CHR ''-'' \<notin> set d2"
    and eq: "a @ ''-'' @ d1 = b @ ''-'' @ d2"
  shows "a = b \<and> d1 = d2"
proof -
  have "rev (a @ ''-'' @ d1) = rev (b @ ''-'' @ d2)"
    using eq by simp
  then have r: "rev d1 @ CHR ''-'' # rev a = rev d2 @ CHR ''-'' # rev b"
    by simp
  have "rev d1 = takeWhile (\<lambda>c. c \<noteq> CHR ''-'') (rev d1 @ CHR ''-'' # rev a)"
    using d1 by (simp add: takeWhile_dash)
  also have "\<dots> = takeWhile (\<lambda>c. c \<noteq> CHR ''-'') (rev d2 @ CHR ''-'' # rev b)"
    by (simp only: r)
  also have "\<dots> = rev d2"
    using d2 by (simp add: takeWhile_dash)
  finally have "d1 = d2" by simp
  with eq show ?thesis by simp
qed

lemma record_id_eq:
  "n1 @ ''-'' @ string_of_nat k1 = n2 @ ''-'' @ string_of_nat k2 \<longleftrightarrow> n1 = n2 \<and> k1 = k2"
  using dash_split [OF string_of_nat_no_dash string_of_nat_no_dash, of n1 k1 n2 k2]
    string_of_nat_inj [of k1 k2]
  by blast


subsection \<open>The fetch phase\<close>

lemma approvalCount_count_list:
  "approvalCount reviews = count_list (map state reviews) ''APPROVED''"
  unfolding approvalCount_def by (induction reviews) auto

lemma pr_loop_None:
  "pr_loop cfg e n prs s = (None, s') \<Longrightarrow>
     allPRs s' = allPRs s @ concat (map (pull_records cfg e n) prs)
     \<and> requests s' = requests s @ map (\<lambda>p. List_reviews n (number p)) prs"
  by (induction prs arbitrary: s)
     (auto simp: Let_def reviews_of_def pull_records_def approvalCount_count_list
        split: fetched.splits payload.splits option.splits)

lemma repo_loop_None:
  "repo_loop cfg e rs s = (None, s') \<Longrightarrow>
     allPRs s' = allPRs s @ concat (map (repo_records cfg e) rs)
     \<and> requests s' = requests s @ concat (map (repo_requests e) rs)"
proof (induction rs arbitrary: s)
  case Nil
  then show ?case by simp
next
  case (Cons r rs)
  then show ?case
    by (auto simp: Let_def repo_records_def repo_requests_def pulls_of_def
        split: fetched.splits payload.splits option.splits if_splits prod.splits dest!: pr_loop_None)
qed

lemma fetch_phase_None:
  assumes "fetch_phase cfg e = (None, fs)"
  shows "allPRs fs = encounter_order cfg e"
    and "requests fs = List_repos # concat (map (repo_requests e) (repos_of e))"
  using assms
  by (auto simp: fetch_phase_def encounter_order_def repos_of_def Let_def
      split: fetched.splits payload.splits option.splits dest!: repo_loop_None)

lemma pr_loop_allPRs:
  "pr_loop cfg e n prs s = (res, s') \<Longrightarrow> r \<in> set (allPRs s') \<Longrightarrow>
     r \<in> set (allPRs s) \<or> (\<exists>p. p \<in> set prs \<and> from_pull cfg e n p r)"
proof (induction prs arbitrary: s)
  case Nil
  then show ?case by simp
next
  case (Cons p prs)
  show ?case
  proof (cases "reviews_api e n (number p)")
    case (Rejected msg)
    with Cons.prems show ?thesis by (auto simp: Let_def)
  next
    case (Resolved payload)
    show ?thesis
    proof (cases payload)
      case Null
      with Resolved Cons.prems show ?thesis by (auto simp: Let_def)
    next
      case Object
      with Resolved Cons.prems show ?thesis by (auto simp: Let_def)
    next
      case (Array reviews)
      show ?thesis
      proof (cases "user p")
        case None
        with Array Resolved Cons.prems show ?thesis by (auto simp: Let_def)
      next
        case (Some u)
        let ?new = "make_PR cfg n p u (approvalCount reviews)"
        let ?s2 = "s\<lparr>requests := requests s @ [List_reviews n (number p)],
                     allPRs := allPRs s @ [?new]\<rparr>"
        from Some Array Resolved Cons.prems(1) have run: "pr_loop cfg e n prs ?s2 = (res, s')"
          by (simp add: Let_def)
        have new: "from_pull cfg e n p ?new"
          by (simp add: from_pull_def Resolved Array Some approvalCount_count_list)
        from Cons.IH [OF run Cons.prems(2)]
        consider "r \<in> set (allPRs s)" | "r = ?new"
          | q where "q \<in> set prs" "from_pull cfg e n q r"
          by auto
        then show ?thesis
        proof cases
          case 1
          then show ?thesis by simp
        next
          case 2
          with new show ?thesis by auto
        next
          case 3
          then show ?thesis by auto
        qed
      qed
    qed
  qed
qed

lemma pr_loop_requests:
  "pr_loop cfg e n prs s = (res, s') \<Longrightarrow> q \<in> set (requests s') \<Longrightarrow>
     q \<in> set (requests s) \<or> (\<exists>p. p \<in> set prs \<and> q = List_reviews n (number p))"
proof (induction prs arbitrary: s)
  case Nil
  then show ?case by simp
next
  case (Cons p prs)
  show ?case
  proof (cases "reviews_api e n (number p)")
    case (Rejected msg)
    with Cons.prems show ?thesis by (auto simp: Let_def)
  next
    case (Resolved payload)
    show ?thesis
    proof (cases payload)
      case Null
      with Resolved Cons.prems show ?thesis by (auto simp: Let_def)
    next
      case Object
      with Resolved Cons.prems show ?thesis by (auto simp: Let_def)
    next
      case (Array reviews)
      show ?thesis
      proof (cases "user p")
        case None
        with Array Resolved Cons.prems show ?thesis by (auto simp: Let_def)
      next
        case (Some u)
        with Array Resolved Cons.prems Cons.IH show ?thesis
          by (fastforce simp: Let_def)
      qed
    qed
  qed
qed


lemma repo_loop_allPRs:
  "repo_loop cfg e rs s = (res, s') \<Longrightarrow> r \<in> set (allPRs s') \<Longrightarrow>
     r \<in> set (allPRs s) \<or>
     (\<exists>g p. g \<in> set rs \<and> p \<in> set (pulls_of e (name g)) \<and> \<not> draft p \<and>
        from_pull cfg e (name g) p r)"
proof (induction rs arbitrary: s)
  case Nil
  then show ?case by simp
next
  case (Cons g rs)
  let ?s1 = "s\<lparr>requests := requests s @ [List_pulls (name g)]\<rparr>"
  have skip: ?case if "repo_loop cfg e rs ?s1 = (res, s')"
    using Cons.IH [OF that Cons.prems(2)] by auto
  show ?case
  proof (cases "pulls_api e (name g)")
    case (Rejected msg)
    with Cons.prems show ?thesis by (auto simp: Let_def)
  next
    case (Resolved payload)
    show ?thesis
    proof (cases payload)
      case Null
      with Resolved Cons.prems(1) show ?thesis by (intro skip) (simp add: Let_def)
    next
      case Object
      with Resolved Cons.prems show ?thesis by (auto simp: Let_def repo_requests_def)
    next
      case (Array pulls)
      show ?thesis
      proof (cases "length pulls = 0")
        case True
        with Array Resolved Cons.prems(1) show ?thesis by (intro skip) (simp add: Let_def)
      next
        case False
        obtain res1 s2 where inner:
          "pr_loop cfg e (name g) (filter (\<lambda>p. \<not> draft p) pulls) ?s1 = (res1, s2)"
          by (cases "pr_loop cfg e (name g) (filter (\<lambda>p. \<not> draft p) pulls) ?s1")
        have pulls: "pulls_of e (name g) = pulls"
          by (simp add: pulls_of_def Resolved Array)
        have from_inner: "x \<in> set (allPRs s) \<or>
            (\<exists>p. p \<in> set (pulls_of e (name g)) \<and> \<not> draft p \<and> from_pull cfg e (name g) p x)"
          if "x \<in> set (allPRs s2)" for x
          using pr_loop_allPRs [OF inner that] by (auto simp: pulls)
        show ?thesis
        proof (cases res1)
          case None
          with inner False Array Resolved Cons.prems(1)
          have "repo_loop cfg e rs s2 = (res, s')" by (simp add: Let_def)
          from Cons.IH [OF this Cons.prems(2)] from_inner show ?thesis by auto
        next
          case (Some err)
          with inner False \<open>payload = Array pulls\<close> Resolved Cons.prems(1)
          have "s' = s2" by (simp add: Let_def)
          with Cons.prems(2) from_inner show ?thesis by auto
        qed
      qed
    qed
  qed
qed

lemma repo_loop_requests:
  "repo_loop cfg e rs s = (res, s') \<Longrightarrow> q \<in> set (requests s') \<Longrightarrow>
     q \<in> set (requests s) \<or> (\<exists>g. g \<in> set rs \<and> q \<in> set (repo_requests e g))"
proof (induction rs arbitrary: s)
  case Nil
  then show ?case by simp
next
  case (Cons g rs)
  let ?s1 = "s\<lparr>requests := requests s @ [List_pulls (name g)]\<rparr>"
  have skip: ?case if "repo_loop cfg e rs ?s1 = (res, s')"
    using Cons.IH [OF that Cons.prems(2)] by (auto simp: repo_requests_def)
  show ?case
  proof (cases "pulls_api e (name g)")
    case (Rejected msg)
    with Cons.prems show ?thesis by (auto simp: Let_def repo_requests_def)
  next
    case (Resolved payload)
    show ?thesis
    proof (cases payload)
      case Null
      with Resolved Cons.prems(1) show ?thesis by (intro skip) (simp add: Let_def)
    next
      case Object
      with Resolved Cons.prems show ?thesis by (auto simp: Let_def repo_requests_def)
    next
      case (Array pulls)
      show ?thesis
      proof (cases "length pulls = 0")
        case True
        with Array Resolved Cons.prems(1) show ?thesis by (intro skip) (simp add: Let_def)
      next
        case False
        obtain res1 s2 where inner:
          "pr_loop cfg e (name g) (filter (\<lambda>p. \<not> draft p) pulls) ?s1 = (res1, s2)"
          by (cases "pr_loop cfg e (name g) (filter (\<lambda>p. \<not> draft p) pulls) ?s1")
        have pulls: "pulls_of e (name g) = pulls"
          by (simp add: pulls_of_def Resolved Array)
        have from_inner: "x \<in> set (requests s) \<or> x \<in> set (repo_requests e g)"
          if "x \<in> set (requests s2)" for x
          using pr_loop_requests [OF inner that] by (auto simp: pulls repo_requests_def)
        show ?thesis
        proof (cases res1)
          case None
          with inner False Array Resolved Cons.prems(1)
          have "repo_loop cfg e rs s2 = (res, s')" by (simp add: Let_def)
          from Cons.IH [OF this Cons.prems(2)] from_inner show ?thesis by auto
        next
          case (Some err)
          with inner False \<open>payload = Array pulls\<close> Resolved Cons.prems(1)
          have "s' = s2" by (simp add: Let_def)
          with Cons.prems(2) from_inner show ?thesis by auto
        qed
      qed
    qed
  qed
qed

lemma fetch_phase_allPRs:
  assumes "r \<in> set (allPRs (snd (fetch_phase cfg e)))"
  shows "\<exists>g p. g \<in> set (repos_of e) \<and> p \<in> set (pulls_of e (name g)) \<and> \<not> draft p \<and>
           from_pull cfg e (name g) p r"
proof (cases "repos_api e")
  case (Rejected msg)
  with assms show ?thesis by (simp add: fetch_phase_def)
next
  case (Resolved payload)
  show ?thesis
  proof (cases payload)
    case Null
    with Resolved assms show ?thesis by (simp add: fetch_phase_def)
  next
    case Object
    with Resolved assms show ?thesis by (simp add: fetch_phase_def)
  next
    case (Array repos)
    let ?s0 = "\<lparr>allPRs = [], requests = [List_repos]\<rparr>"
    have run: "repo_loop cfg e repos ?s0 = (fst (fetch_phase cfg e), snd (fetch_phase cfg e))"
      by (simp add: fetch_phase_def Resolved Array)
    have "repos_of e = repos"
      by (simp add: repos_of_def Resolved Array)
    with repo_loop_allPRs [OF run assms] show ?thesis by simp
  qed
qed

lemma fetch_phase_requests:
  assumes "q \<in> set (requests (snd (fetch_phase cfg e)))"
  shows "q = List_repos \<or> (\<exists>g. g \<in> set (repos_of e) \<and> q \<in> set (repo_requests e g))"
proof (cases "repos_api e")
  case (Rejected msg)
  with assms show ?thesis by (simp add: fetch_phase_def)
next
  case (Resolved payload)
  show ?thesis
  proof (cases payload)
    case Null
    with Resolved assms show ?thesis by (simp add: fetch_phase_def)
  next
    case Object
    with Resolved assms show ?thesis by (simp add: fetch_phase_def)
  next
    case (Array repos)
    let ?s0 = "\<lparr>allPRs = [], requests = [List_repos]\<rparr>"
    have run: "repo_loop cfg e repos ?s0 = (fst (fetch_phase cfg e), snd (fetch_phase cfg e))"
      by (simp add: fetch_phase_def Resolved Array)
    have "repos_of e = repos"
      by (simp add: repos_of_def Resolved Array)
    with repo_loop_requests [OF run assms] show ?thesis by simp
  qed
qed







subsection \<open>The sort and the store\<close>

lemma compare_typed_le: "compare_typed a b \<le> 0 \<longleftrightarrow> approvals a \<le> approvals b"
  by (simp add: compare_typed_def or_zero_def)

lemma insert_js_typed: "insert_js compare_typed x ys = insort_key approvals x ys"
  by (induction ys) (simp_all add: compare_typed_le)

lemma sort_js_typed: "sort_js compare_typed xs = sort_key approvals xs"
  by (induction xs) (simp_all add: insert_js_typed)

lemma compare_untyped_typed: "compare_untyped = compare_typed"
  by (intro ext) (simp add: compare_untyped_def compare_typed_def or_zero_def)

lemma length_sort_js_typed: "length (sort_js compare_typed xs) = length xs"
  by (simp add: sort_js_typed)

lemma set_sort_js_typed: "set (sort_js compare_typed xs) = set xs"
  by (simp add: sort_js_typed)

lemma upsert_all_writes:
  "upsert_all e prs s = (res, s') \<Longrightarrow> writes s' = writes s @ map record_write prs"
  by (induction prs arbitrary: s res s')
     (auto simp: setDoc_def Let_def record_write_def split: option.splits prod.splits)

lemma upsert_all_None:
  "upsert_all e prs s = (None, s') \<Longrightarrow> pr \<in> set prs \<Longrightarrow>
     setDoc_rejects e ''prs'' (id_pr pr) = None"
  by (induction prs arbitrary: s s')
     (auto simp: setDoc_def Let_def split: option.splits prod.splits)

lemma upsert_all_accepting:
  "\<forall>pr\<in>set prs. setDoc_rejects e ''prs'' (id_pr pr) = None \<Longrightarrow>
     fst (upsert_all e prs s) = None"
  by (induction prs arbitrary: s)
     (auto simp: setDoc_def Let_def split: option.splits prod.splits)

lemma upsert_all_other:
  "upsert_all e prs s = (res, s') \<Longrightarrow> c \<noteq> ''prs'' \<Longrightarrow> db s' c = db s c"
  by (induction prs arbitrary: s res s')
     (auto simp: setDoc_def Let_def merge_doc_def split: option.splits prod.splits)

lemma dom_PR_doc:
  "dom (PR_doc pr) = {''id'', ''title'', ''repo'', ''author'', ''url'', ''updated_at'', ''approvals''}"
  by (auto simp: PR_doc_def)

lemma map_add_absorb: "dom m = dom n \<Longrightarrow> (b ++ m) ++ n = b ++ n"
  by (intro ext) (auto simp: map_add_def split: option.splits)

lemma PR_doc_absorb: "(b ++ PR_doc x) ++ PR_doc y = b ++ PR_doc y"
  by (rule map_add_absorb) (simp only: dom_PR_doc)

lemma upsert_all_db:
  "upsert_all e prs s = (None, s') \<Longrightarrow>
     db s' ''prs'' k =
       (case filter (\<lambda>x. id_pr x = k) prs of
          [] \<Rightarrow> db s ''prs'' k
        | x # xs \<Rightarrow> Some (base_doc (db s) k ++ PR_doc (last (x # xs))))"
proof (induction prs arbitrary: s)
  case Nil
  then show ?case by simp
next
  case (Cons pr prs)
  let ?s1 = "s\<lparr>writes := writes s @ [(''prs'', id_pr pr, PR_doc pr)],
              db := merge_doc (db s) ''prs'' (id_pr pr) (PR_doc pr)\<rparr>"
  from Cons.prems have acc: "setDoc_rejects e ''prs'' (id_pr pr) = None"
    by (auto simp: setDoc_def Let_def split: option.splits prod.splits)
  with Cons.prems have rest: "upsert_all e prs ?s1 = (None, s')"
    by (auto simp: setDoc_def Let_def split: option.splits prod.splits)
  note IH = Cons.IH [OF rest]
  show ?case
  proof (cases "id_pr pr = k")
    case False
    then have "db ?s1 ''prs'' k = db s ''prs'' k" "base_doc (db ?s1) k = base_doc (db s) k"
      by (auto simp: merge_doc_def base_doc_def)
    with IH False show ?thesis by (simp split: list.splits)
  next
    case True
    have b1: "db ?s1 ''prs'' k = Some (base_doc (db s) k ++ PR_doc pr)"
      using True by (auto simp: merge_doc_def base_doc_def split: option.splits)
    then have b2: "base_doc (db ?s1) k = base_doc (db s) k ++ PR_doc pr"
      by (simp add: base_doc_def)
    show ?thesis
    proof (cases "filter (\<lambda>x. id_pr x = k) prs")
      case Nil
      with IH True b1 show ?thesis by simp
    next
      case (Cons y ys)
      with IH True b2 show ?thesis by (simp add: PR_doc_absorb)
    qed
  qed
qed


subsection \<open>The handler\<close>

lemma GET_issued: "issued (GET cfg e db0) = requests (snd (fetch_phase cfg e))"
  by (auto simp: GET_def catch_block_def Let_def split: prod.splits option.splits)

lemma GET_thrown:
  "fetch_phase cfg e = (Some err, fs) \<Longrightarrow>
     GET cfg e db0 = catch_block err (requests fs) \<lparr>db = db0, writes = []\<rparr>"
  by (simp add: GET_def)

lemma GET_run:
  assumes "fetch_phase cfg e = (None, fs)"
    and "upsert_all e (sort_js compare_typed (allPRs fs)) \<lparr>db = db0, writes = []\<rparr> = (None, s1)"
    and "setDoc_rejects e ''metadata'' ''system'' = None"
  shows "GET cfg e db0 =
     \<lparr> response = \<lparr>status = 200, body = Refreshed (length (allPRs fs))\<rparr>,
       store = merge_doc (db s1) ''metadata'' ''system'' (metadata_doc e (length (allPRs fs))),
       issued = requests fs,
       written = map record_write (sort_js compare_typed (allPRs fs))
                   @ [(''metadata'', ''system'', metadata_doc e (length (allPRs fs)))],
       console = [] \<rparr>"
  using assms upsert_all_writes [OF assms(2)]
  by (simp add: GET_def Let_def setDoc_def length_sort_js_typed)

lemma GET_success:
  assumes "success (body (response (GET cfg e db0)))"
  obtains fs s1 where "fetch_phase cfg e = (None, fs)"
    and "upsert_all e (sort_js compare_typed (allPRs fs)) \<lparr>db = db0, writes = []\<rparr> = (None, s1)"
    and "setDoc_rejects e ''metadata'' ''system'' = None"
proof -
  obtain res fs where f: "fetch_phase cfg e = (res, fs)"
    by (cases "fetch_phase cfg e")
  obtain r1 s1 where u:
    "upsert_all e (sort_js compare_typed (allPRs fs)) \<lparr>db = db0, writes = []\<rparr> = (r1, s1)"
    by (cases "upsert_all e (sort_js compare_typed (allPRs fs)) \<lparr>db = db0, writes = []\<rparr>")
  from assms f have "res = None"
    by (cases res) (simp_all add: GET_def catch_block_def)
  moreover from assms f u \<open>res = None\<close> have "r1 = None"
    by (cases r1) (simp_all add: GET_def catch_block_def Let_def)
  moreover from assms f u \<open>res = None\<close> \<open>r1 = None\<close>
  have "setDoc_rejects e ''metadata'' ''system'' = None"
    by (cases "setDoc_rejects e ''metadata'' ''system''")
       (simp_all add: GET_def catch_block_def Let_def setDoc_def)
  ultimately show thesis
    using f u that by simp
qed

lemma GET_written:
  "written (GET cfg e db0) = [] \<or>
   (\<exists>tl. written (GET cfg e db0) =
            map record_write (sort_js compare_typed (allPRs (snd (fetch_phase cfg e)))) @ tl
        \<and> set tl \<subseteq> {(''metadata'', ''system'',
                        metadata_doc e (length (allPRs (snd (fetch_phase cfg e)))))})"
proof -
  obtain res fs where f: "fetch_phase cfg e = (res, fs)"
    by (cases "fetch_phase cfg e")
  obtain r1 s1 where u:
    "upsert_all e (sort_js compare_typed (allPRs fs)) \<lparr>db = db0, writes = []\<rparr> = (r1, s1)"
    by (cases "upsert_all e (sort_js compare_typed (allPRs fs)) \<lparr>db = db0, writes = []\<rparr>")
  note w = upsert_all_writes [OF u]
  show ?thesis
  proof (cases res)
    case (Some err)
    with f show ?thesis by (simp add: GET_def catch_block_def)
  next
    case None
    show ?thesis
    proof (cases r1)
      case (Some msg)
      with None f u w show ?thesis
        by (simp add: GET_def catch_block_def Let_def)
    next
      case r1: None
      with None f u w show ?thesis
        by (cases "setDoc_rejects e ''metadata'' ''system''")
           (simp_all add: GET_def catch_block_def Let_def setDoc_def length_sort_js_typed)
    qed
  qed
qed

lemma GET_written_prs:
  assumes "(''prs'', k, d) \<in> set (written (GET cfg e db0))"
  shows "\<exists>r. r \<in> set (allPRs (snd (fetch_phase cfg e))) \<and> k = id_pr r \<and> d = PR_doc r"
  using GET_written [of cfg e db0] assms
  by (auto simp: record_write_def set_sort_js_typed)


subsection \<open>Keys and ids in the store\<close>

lemma PR_doc_id: "PR_doc pr ''id'' = Some (Str (id_pr pr))"
  by (simp add: PR_doc_def)

lemma setDoc_keyed_preserved:
  assumes "keyed (db s) k" and "setDoc e ''prs'' (id_pr pr) (PR_doc pr) s = (r, s')"
  shows "keyed (db s') k"
proof (cases "setDoc_rejects e ''prs'' (id_pr pr)")
  case (Some msg)
  with assms show ?thesis by (auto simp: setDoc_def Let_def)
next
  case None
  with assms(2) have s': "db s' = merge_doc (db s) ''prs'' (id_pr pr) (PR_doc pr)"
    by (auto simp: setDoc_def Let_def)
  show ?thesis
  proof (cases "id_pr pr = k")
    case True
    with assms(1) show ?thesis
      by (auto simp: keyed_def s' merge_doc_def PR_doc_id)
  next
    case False
    with assms(1) show ?thesis
      by (auto simp: keyed_def s' merge_doc_def)
  qed
qed

lemma setDoc_keyed:
  assumes "setDoc_rejects e ''prs'' (id_pr pr) = None"
    and "setDoc e ''prs'' (id_pr pr) (PR_doc pr) s = (r, s')"
  shows "keyed (db s') (id_pr pr)"
proof -
  from assms have s': "db s' = merge_doc (db s) ''prs'' (id_pr pr) (PR_doc pr)"
    by (auto simp: setDoc_def Let_def)
  show ?thesis
    by (cases "db s ''prs'' (id_pr pr)") (simp_all add: keyed_def s' merge_doc_def PR_doc_id)
qed

lemma upsert_all_keyed_preserved:
  "keyed (db s) k \<Longrightarrow> upsert_all e prs s = (r, s') \<Longrightarrow> keyed (db s') k"
proof (induction prs arbitrary: s r s')
  case Nil
  then show ?case by simp
next
  case (Cons pr prs)
  obtain r1 s1 where one: "setDoc e ''prs'' (id_pr pr) (PR_doc pr) s = (r1, s1)"
    by (cases "setDoc e ''prs'' (id_pr pr) (PR_doc pr) s")
  obtain r2 s2 where two: "upsert_all e prs s1 = (r2, s2)"
    by (cases "upsert_all e prs s1")
  from Cons.prems(2) one two have "s' = s2" by simp
  with Cons.IH [OF setDoc_keyed_preserved [OF Cons.prems(1) one] two] show ?case by simp
qed

lemma upsert_all_keyed:
  "upsert_all e prs s = (r, s') \<Longrightarrow> pr \<in> set prs \<Longrightarrow>
     setDoc_rejects e ''prs'' (id_pr pr) = None \<Longrightarrow> keyed (db s') (id_pr pr)"
proof (induction prs arbitrary: s r s')
  case Nil
  then show ?case by simp
next
  case (Cons x prs)
  obtain r1 s1 where one: "setDoc e ''prs'' (id_pr x) (PR_doc x) s = (r1, s1)"
    by (cases "setDoc e ''prs'' (id_pr x) (PR_doc x) s")
  obtain r2 s2 where two: "upsert_all e prs s1 = (r2, s2)"
    by (cases "upsert_all e prs s1")
  from Cons.prems(1) one two have s': "s' = s2" by simp
  show ?case
  proof (cases "pr = x")
    case True
    with Cons.prems(3) one have "keyed (db s1) (id_pr pr)"
      by (auto intro: setDoc_keyed)
    from upsert_all_keyed_preserved [OF this two] s' show ?thesis by simp
  next
    case False
    with Cons.prems(2) have "pr \<in> set prs" by simp
    from Cons.IH [OF two this Cons.prems(3)] s' show ?thesis by simp
  qed
qed

lemma GET_store_prs:
  assumes "fetch_phase cfg e = (None, fs)"
    and "upsert_all e (sort_js compare_typed (allPRs fs)) \<lparr>db = db0, writes = []\<rparr> = (r1, s1)"
  shows "store (GET cfg e db0) ''prs'' = db s1 ''prs''"
proof (cases r1)
  case (Some msg)
  with assms show ?thesis by (simp add: GET_def catch_block_def Let_def)
next
  case None
  with assms show ?thesis
    by (cases "setDoc_rejects e ''metadata'' ''system''")
       (simp_all add: GET_def catch_block_def Let_def setDoc_def merge_doc_def)
qed

lemma GET_thrown_written:
  "fetch_phase cfg e = (Some err, fs) \<Longrightarrow> written (GET cfg e db0) = []"
  by (simp add: GET_thrown catch_block_def)

subsection \<open>A second run\<close>

lemma pr_loop_now: "pr_loop cfg (e\<lparr>now := t\<rparr>) n prs s = pr_loop cfg e n prs s"
  by (induction prs arbitrary: s) (simp_all add: Let_def split: fetched.splits payload.splits option.splits)

lemma repo_loop_now: "repo_loop cfg (e\<lparr>now := t\<rparr>) rs s = repo_loop cfg e rs s"
  by (induction rs arbitrary: s)
     (simp_all add: Let_def pr_loop_now split: fetched.splits payload.splits option.splits prod.splits)

lemma fetch_phase_now: "fetch_phase cfg (e\<lparr>now := t\<rparr>) = fetch_phase cfg e"
  by (simp add: fetch_phase_def Let_def repo_loop_now split: fetched.splits payload.splits option.splits)

lemma upsert_all_now: "upsert_all (e\<lparr>now := t\<rparr>) prs s = upsert_all e prs s"
  by (induction prs arbitrary: s) (simp_all add: setDoc_def)

lemma merge_doc_other: "c \<noteq> c' \<Longrightarrow> merge_doc d c' k x c = d c"
  by (simp add: merge_doc_def)

lemma lastRefreshCount_merge:
  "lastRefreshCount (merge_doc d ''metadata'' ''system'' (metadata_doc e n)) = Some (Num n)"
  by (simp add: lastRefreshCount_def merge_doc_def metadata_doc_def split: option.splits)

subsection \<open>Runs on the sample organisation\<close>

lemma scenario_D_run:
  "allPRs (snd (fetch_phase cfg scenario_D)) =
     [make_PR cfg ''web'' (pull 12 ''Add login'' False) octocat 2]"
  by (simp add: fetch_phase_def scenario_D_def Let_def pull_def review_def approvalCount_def numeral_2_eq_2)


lemma acme_env_fetch:
  "fetch_phase acme acme_env =
     (None,
      \<lparr>allPRs = [make_PR acme ''web'' (pull 12 ''Add login'' False) octocat 2,
                 make_PR acme ''web'' (pull 15 ''Fix typo'' False) octocat 0,
                 make_PR acme ''api'' (pull 7 ''Bump deps'' False) octocat 2],
        requests = [List_repos, List_pulls ''web'', List_reviews ''web'' 12,
                    List_reviews ''web'' 15, List_pulls ''api'', List_reviews ''api'' 7,
                    List_pulls ''docs'']\<rparr>)"
  by (simp add: fetch_phase_def acme_env_def Let_def pull_def review_def approvalCount_def
      numeral_2_eq_2)

lemma acme_env_sorted:
  "sort_js compare_typed
     [make_PR acme ''web'' (pull 12 ''Add login'' False) octocat 2,
      make_PR acme ''web'' (pull 15 ''Fix typo'' False) octocat 0,
      make_PR acme ''api'' (pull 7 ''Bump deps'' False) octocat 2] =
     [make_PR acme ''web'' (pull 15 ''Fix typo'' False) octocat 0,
      make_PR acme ''web'' (pull 12 ''Add login'' False) octocat 2,
      make_PR acme ''api'' (pull 7 ''Bump deps'' False) octocat 2]"
  by (simp add: compare_typed_def or_zero_def make_PR_def)

lemma acme_env_encounter:
  "encounter_order acme acme_env =
     [make_PR acme ''web'' (pull 12 ''Add login'' False) octocat 2,
      make_PR acme ''web'' (pull 15 ''Fix typo'' False) octocat 0,
      make_PR acme ''api'' (pull 7 ''Bump deps'' False) octocat 2]"
  using fetch_phase_None(1) [OF acme_env_fetch] by simp

lemma acme_env_accepts: "setDoc_rejects acme_env c k = None"
  by (simp add: acme_env_def)

lemma acme_env_GET:
  "response (GET acme acme_env db0) = \<lparr>status = 200, body = Refreshed 3\<rparr>"
  "written (GET acme acme_env db0) =
     map record_write
       [make_PR acme ''web'' (pull 15 ''Fix typo'' False) octocat 0,
        make_PR acme ''web'' (pull 12 ''Add login'' False) octocat 2,
        make_PR acme ''api'' (pull 7 ''Bump deps'' False) octocat 2]
     @ [(''metadata'', ''system'', metadata_doc acme_env 3)]"
proof -
  let ?fs = "snd (fetch_phase acme acme_env)"
  let ?up = "upsert_all acme_env (sort_js compare_typed (allPRs ?fs)) \<lparr>db = db0, writes = []\<rparr>"
  have f: "fetch_phase acme acme_env = (None, ?fs)"
    by (simp add: acme_env_fetch)
  have "fst ?up = None"
    by (rule upsert_all_accepting) (simp add: acme_env_accepts)
  then have u: "?up = (None, snd ?up)"
    by (simp add: prod_eq_iff)
  note run = GET_run [OF f u acme_env_accepts]
  show "response (GET acme acme_env db0) = \<lparr>status = 200, body = Refreshed 3\<rparr>"
    by (simp add: run acme_env_fetch)
  show "written (GET acme acme_env db0) =
     map record_write
       [make_PR acme ''web'' (pull 15 ''Fix typo'' False) octocat 0,
        make_PR acme ''web'' (pull 12 ''Add login'' False) octocat 2,
        make_PR acme ''api'' (pull 7 ''Bump deps'' False) octocat 2]
     @ [(''metadata'', ''system'', metadata_doc acme_env 3)]"
    by (simp only: run outcome.simps acme_env_fetch snd_conv fetch_state.simps acme_env_sorted)
       (simp add: numeral_3_eq_3)
qed

section \<open>The claims\<close>

text \<open>
  C1: every record that the fetch phase produces belongs to a pull request of a listed
  repository that is not a draft, and its \<^verbatim>\<open>approvals\<close> field is the number of
  entries of that pull request's review list whose state is the string \<^verbatim>\<open>APPROVED\<close>
  (an exact comparison of strings, one count per entry). Every document that the handler
  writes to the record collection is the document of such a record, with that number as
  its \<^verbatim>\<open>approvals\<close> field. For the review list \<^verbatim>\<open>APPROVED\<close>,
  \<^verbatim>\<open>COMMENTED\<close>, \<^verbatim>\<open>APPROVED\<close> the record has two approvals.
\<close>

theorem approvals_count_APPROVED:
  "(\<forall>r \<in> set (allPRs (snd (fetch_phase cfg e))).
      \<exists>g p reviews.
        g \<in> set (repos_of e) \<and> p \<in> set (pulls_of e (name g)) \<and> \<not> draft p \<and>
        reviews_api e (name g) (number p) = Resolved (Array reviews) \<and>
        id_pr r = name g @ ''-'' @ string_of_nat (number p) \<and>
        approvals r = count_list (map state reviews) ''APPROVED'')
   \<and> (\<forall>k d. (''prs'', k, d) \<in> set (written (GET cfg e db0)) \<longrightarrow>
         (\<exists>r. r \<in> set (allPRs (snd (fetch_phase cfg e))) \<and> k = id_pr r \<and>
            d ''approvals'' = Some (Num (approvals r))))
   \<and> map approvals (allPRs (snd (fetch_phase cfg scenario_D))) = [2]"
proof (intro conjI ballI allI impI)
  fix r
  assume "r \<in> set (allPRs (snd (fetch_phase cfg e)))"
  from fetch_phase_allPRs [OF this]
  obtain g p reviews u where "g \<in> set (repos_of e)" "p \<in> set (pulls_of e (name g))" "\<not> draft p"
    "reviews_api e (name g) (number p) = Resolved (Array reviews)"
    "r = make_PR cfg (name g) p u (count_list (map state reviews) ''APPROVED'')"
    by (auto simp: from_pull_def)
  then show "\<exists>g p reviews.
        g \<in> set (repos_of e) \<and> p \<in> set (pulls_of e (name g)) \<and> \<not> draft p \<and>
        reviews_api e (name g) (number p) = Resolved (Array reviews) \<and>
        id_pr r = name g @ ''-'' @ string_of_nat (number p) \<and>
        approvals r = count_list (map state reviews) ''APPROVED''"
    by (auto simp: make_PR_def)
next
  fix k d
  assume "(''prs'', k, d) \<in> set (written (GET cfg e db0))"
  from GET_written_prs [OF this]
  obtain r where "r \<in> set (allPRs (snd (fetch_phase cfg e)))" "k = id_pr r" "d = PR_doc r"
    by blast
  moreover have "PR_doc r ''approvals'' = Some (Num (approvals r))"
    by (simp add: PR_doc_def)
  ultimately show "\<exists>r. r \<in> set (allPRs (snd (fetch_phase cfg e))) \<and> k = id_pr r \<and>
      d ''approvals'' = Some (Num (approvals r))"
    by blast
next
  show "map approvals (allPRs (snd (fetch_phase cfg scenario_D))) = [2]"
    by (simp add: scenario_D_run make_PR_def)
qed

theorem approvals_count_APPROVED_witness:
  "make_PR acme ''api'' (pull 7 ''Bump deps'' False) octocat 2 \<in> set (allPRs (snd (fetch_phase acme acme_env)))
   \<and> (\<exists>g p reviews.
        g \<in> set (repos_of acme_env) \<and> p \<in> set (pulls_of acme_env (name g)) \<and> \<not> draft p \<and>
        reviews_api acme_env (name g) (number p) = Resolved (Array reviews) \<and>
        id_pr (make_PR acme ''api'' (pull 7 ''Bump deps'' False) octocat 2)
          = name g @ ''-'' @ string_of_nat (number p) \<and>
        approvals (make_PR acme ''api'' (pull 7 ''Bump deps'' False) octocat 2)
          = count_list (map state reviews) ''APPROVED'')
   \<and> reviews_api acme_env ''api'' 7
        = Resolved (Array [review ''APPROVED'', review ''approved'', review ''APPROVED''])
   \<and> (''prs'', ''api-7'', PR_doc (make_PR acme ''api'' (pull 7 ''Bump deps'' False) octocat 2))
        \<in> set (written (GET acme acme_env old_db))
   \<and> (\<exists>r. r \<in> set (allPRs (snd (fetch_phase acme acme_env))) \<and> ''api-7'' = id_pr r \<and>
         PR_doc (make_PR acme ''api'' (pull 7 ''Bump deps'' False) octocat 2) ''approvals''
           = Some (Num (approvals r)))
   \<and> PR_doc (make_PR acme ''api'' (pull 7 ''Bump deps'' False) octocat 2) ''approvals'' = Some (Num 2)
   \<and> map approvals (allPRs (snd (fetch_phase acme scenario_D))) = [2]"
proof -
  let ?r = "make_PR acme ''api'' (pull 7 ''Bump deps'' False) octocat 2"
  have mem: "?r \<in> set (allPRs (snd (fetch_phase acme acme_env)))"
    by (simp add: acme_env_fetch)
  have rv: "reviews_api acme_env ''api'' 7
        = Resolved (Array [review ''APPROVED'', review ''approved'', review ''APPROVED''])"
    by (simp add: acme_env_def)
  have "string_of_nat 7 = ''7''"
    by (simp add: string_of_nat_small digit_char_def)
  then have k: "id_pr ?r = ''api-7''"
    by (simp add: make_PR_def pull_def)
  have w: "(''prs'', ''api-7'', PR_doc ?r) \<in> set (written (GET acme acme_env old_db))"
    by (simp add: acme_env_GET record_write_def k)
  have two: "PR_doc ?r ''approvals'' = Some (Num 2)"
    by (simp add: PR_doc_def make_PR_def)
  note inst = approvals_count_APPROVED [of acme acme_env old_db]
  from inst mem have "\<exists>g p reviews.
        g \<in> set (repos_of acme_env) \<and> p \<in> set (pulls_of acme_env (name g)) \<and> \<not> draft p \<and>
        reviews_api acme_env (name g) (number p) = Resolved (Array reviews) \<and>
        id_pr ?r = name g @ ''-'' @ string_of_nat (number p) \<and>
        approvals ?r = count_list (map state reviews) ''APPROVED''"
    by blast
  moreover from inst w have "\<exists>r. r \<in> set (allPRs (snd (fetch_phase acme acme_env))) \<and>
      ''api-7'' = id_pr r \<and> PR_doc ?r ''approvals'' = Some (Num (approvals r))"
    by blast
  moreover from inst have "map approvals (allPRs (snd (fetch_phase acme scenario_D))) = [2]"
    by blast
  ultimately show ?thesis
    using mem rv w two by blast
qed

text \<open>
  C2: for a pull request in the pull list of a repository whose draft flag is true (and
  no entry of that list with the same number says otherwise), the refresh issues no
  review-list request for it, produces no record with its id and writes no document
  under its id.
\<close>

theorem drafts_are_skipped:
  assumes "pulls_api e n = Resolved (Array pulls)" and "p \<in> set pulls" and "draft p"
    and "\<forall>q\<in>set pulls. number q = number p \<longrightarrow> draft q"
  shows "List_reviews n (number p) \<notin> set (issued (GET cfg e db0))
    \<and> n @ ''-'' @ string_of_nat (number p) \<notin> id_pr ` set (allPRs (snd (fetch_phase cfg e)))
    \<and> (\<forall>d. (''prs'', n @ ''-'' @ string_of_nat (number p), d) \<notin> set (written (GET cfg e db0)))"
proof -
  have pulls: "pulls_of e n = pulls"
    by (simp add: pulls_of_def assms(1))
  have no_record: "id_pr r \<noteq> n @ ''-'' @ string_of_nat (number p)"
    if "r \<in> set (allPRs (snd (fetch_phase cfg e)))" for r
  proof
    assume eq: "id_pr r = n @ ''-'' @ string_of_nat (number p)"
    from fetch_phase_allPRs [OF that]
    obtain g :: GitHubRepo and q where q: "q \<in> set (pulls_of e (name g))" "\<not> draft q"
      and r: "from_pull cfg e (name g) q r"
      by blast
    from r have "id_pr r = name g @ ''-'' @ string_of_nat (number q)"
      by (auto simp: from_pull_def make_PR_def)
    with eq have "name g = n" "number q = number p"
      using record_id_eq [of "name g" "number q" n "number p"] by simp_all
    with q pulls assms(4) show False by auto
  qed
  have "List_reviews n (number p) \<notin> set (issued (GET cfg e db0))"
  proof
    assume "List_reviews n (number p) \<in> set (issued (GET cfg e db0))"
    then have "List_reviews n (number p) \<in> set (requests (snd (fetch_phase cfg e)))"
      by (simp add: GET_issued)
    from fetch_phase_requests [OF this]
    obtain g :: GitHubRepo where "List_reviews n (number p) \<in> set (repo_requests e g)"
      by auto
    then obtain q where "name g = n" "number q = number p"
      "q \<in> set (pulls_of e (name g))" "\<not> draft q"
      by (auto simp: repo_requests_def)
    with pulls assms(4) show False by auto
  qed
  moreover have "n @ ''-'' @ string_of_nat (number p)
      \<notin> id_pr ` set (allPRs (snd (fetch_phase cfg e)))"
  proof
    assume "n @ ''-'' @ string_of_nat (number p) \<in> id_pr ` set (allPRs (snd (fetch_phase cfg e)))"
    then obtain r where r: "r \<in> set (allPRs (snd (fetch_phase cfg e)))"
      and "n @ ''-'' @ string_of_nat (number p) = id_pr r"
      by (rule imageE) (rule that)
    with no_record [OF r] show False by simp
  qed
  moreover have "(''prs'', n @ ''-'' @ string_of_nat (number p), d)
      \<notin> set (written (GET cfg e db0))" for d
  proof
    assume "(''prs'', n @ ''-'' @ string_of_nat (number p), d) \<in> set (written (GET cfg e db0))"
    from GET_written_prs [OF this]
    obtain r where r: "r \<in> set (allPRs (snd (fetch_phase cfg e)))"
      and "n @ ''-'' @ string_of_nat (number p) = id_pr r"
      by blast
    with no_record [OF r] show False by simp
  qed
  ultimately show ?thesis by blast
qed

theorem drafts_are_skipped_witness:
  "pulls_api acme_env ''web''
     = Resolved (Array [pull 12 ''Add login'' False, pull 13 ''WIP'' True, pull 15 ''Fix typo'' False])
   \<and> draft (pull 13 ''WIP'' True)
   \<and> List_reviews ''web'' 13 \<notin> set (issued (GET acme acme_env old_db))
   \<and> ''web-13'' \<notin> id_pr ` set (allPRs (snd (fetch_phase acme acme_env)))
   \<and> (\<forall>d. (''prs'', ''web-13'', d) \<notin> set (written (GET acme acme_env old_db)))
   \<and> List_reviews ''web'' 15 \<in> set (issued (GET acme acme_env old_db))"
proof -
  have api: "pulls_api acme_env ''web''
     = Resolved (Array [pull 12 ''Add login'' False, pull 13 ''WIP'' True, pull 15 ''Fix typo'' False])"
    by (simp add: acme_env_def)
  have two: "string_of_nat 13 = ''13''"
    by (simp add: string_of_nat_small string_of_nat_large digit_char_def)
  have other: "List_reviews ''web'' 15 \<in> set (issued (GET acme acme_env old_db))"
    by (simp add: GET_issued acme_env_fetch)
  from drafts_are_skipped [OF api, of "pull 13 ''WIP'' True" acme old_db] two other api
  show ?thesis
    by (simp add: pull_def)
qed

text \<open>
  C3: when the refresh succeeds, the records are written in a sequence that is
  non-decreasing in \<^verbatim>\<open>approvals\<close>, and the records with the same number of approvals
  appear in it in encounter order: repository list order, then pull-request list order
  within a repository.
\<close>

theorem records_sorted_stably:
  assumes "success (body (response (GET cfg e db0)))"
  shows "\<exists>recs.
     written (GET cfg e db0)
       = map record_write recs @ [(''metadata'', ''system'', metadata_doc e (length recs))]
     \<and> sorted (map approvals recs)
     \<and> (\<forall>k. filter (\<lambda>r. approvals r = k) recs
              = filter (\<lambda>r. approvals r = k) (encounter_order cfg e))"
proof -
  from assms obtain fs s1 where f: "fetch_phase cfg e = (None, fs)"
    and u: "upsert_all e (sort_js compare_typed (allPRs fs)) \<lparr>db = db0, writes = []\<rparr> = (None, s1)"
    and m: "setDoc_rejects e ''metadata'' ''system'' = None"
    by (rule GET_success)
  let ?recs = "sort_js compare_typed (allPRs fs)"
  have "written (GET cfg e db0)
      = map record_write ?recs @ [(''metadata'', ''system'', metadata_doc e (length ?recs))]"
    by (simp add: GET_run [OF f u m] length_sort_js_typed)
  moreover have "sorted (map approvals ?recs)"
    by (simp add: sort_js_typed)
  moreover have "filter (\<lambda>r. approvals r = k) ?recs
      = filter (\<lambda>r. approvals r = k) (encounter_order cfg e)" for k
    by (simp add: sort_js_typed sort_key_stable fetch_phase_None(1) [OF f])
  ultimately show ?thesis by blast
qed

theorem records_sorted_stably_witness:
  "success (body (response (GET acme acme_env old_db)))
   \<and> (\<exists>recs.
        written (GET acme acme_env old_db)
          = map record_write recs @ [(''metadata'', ''system'', metadata_doc acme_env (length recs))]
        \<and> sorted (map approvals recs)
        \<and> (\<forall>k. filter (\<lambda>r. approvals r = k) recs
                 = filter (\<lambda>r. approvals r = k) (encounter_order acme acme_env)))
   \<and> map approvals (encounter_order acme acme_env) = [2, 0, 2]
   \<and> map (\<lambda>w. fst (snd w)) (written (GET acme acme_env old_db))
        = [''web-15'', ''web-12'', ''api-7'', ''system'']"
proof -
  have ok: "success (body (response (GET acme acme_env old_db)))"
    by (simp add: acme_env_GET)
  have enc: "map approvals (encounter_order acme acme_env) = [2, 0, 2]"
    by (simp add: acme_env_encounter make_PR_def)
  have "string_of_nat 12 = ''12''" "string_of_nat 15 = ''15''" "string_of_nat 7 = ''7''"
    by (simp_all add: string_of_nat_small string_of_nat_large digit_char_def)
  then have keys: "map (\<lambda>w. fst (snd w)) (written (GET acme acme_env old_db))
        = [''web-15'', ''web-12'', ''api-7'', ''system'']"
    by (simp add: acme_env_GET record_write_def make_PR_def pull_def)
  from records_sorted_stably [OF ok] ok enc keys show ?thesis
    by (intro conjI)
qed

text \<open>
  C4: the ids \<^verbatim>\<open>repoName-prNumber\<close> of two records are equal only when the repository
  names are equal and the pull-request numbers are equal: distinct combinations of
  repository name and pull-request number get distinct ids.
\<close>

theorem record_ids_distinct:
  "id_pr (make_PR cfg n1 p1 u1 a1) = id_pr (make_PR cfg' n2 p2 u2 a2)
     \<longleftrightarrow> n1 = n2 \<and> number p1 = number p2"
  using record_id_eq [of n1 "number p1" n2 "number p2"] by (simp add: make_PR_def)

theorem record_ids_distinct_witness:
  "id_pr (make_PR acme ''a-1'' (pull 2 ''x'' False) octocat 0) = ''a-1-2'' \<and>
   id_pr (make_PR acme ''a'' (pull 12 ''y'' False) octocat 0) = ''a-12'' \<and>
   id_pr (make_PR acme ''a-1'' (pull 2 ''x'' False) octocat 0)
     \<noteq> id_pr (make_PR acme ''a'' (pull 12 ''y'' False) octocat 0)"
proof -
  have "id_pr (make_PR acme ''a-1'' (pull 2 ''x'' False) octocat 0)
      \<noteq> id_pr (make_PR acme ''a'' (pull 12 ''y'' False) octocat 0)"
    using record_ids_distinct [of acme "''a-1''" "pull 2 ''x'' False" octocat 0 acme "''a''"
        "pull 12 ''y'' False" octocat 0]
    by simp
  moreover have "string_of_nat 2 = ''2''" "string_of_nat 12 = ''12''"
    by (simp_all add: string_of_nat_small string_of_nat_large digit_char_def)
  ultimately show ?thesis
    by (simp add: make_PR_def pull_def)
qed



text \<open>
  C6: when the organisation has no repositories (and the store accepts the write of the
  metadata document), the refresh answers with status 200 and count 0, writes nothing to
  the record collection, and writes the metadata document with
  \<^verbatim>\<open>lastRefreshCount: 0\<close>.
\<close>

theorem no_repositories:
  assumes "repos_api e = Resolved (Array [])"
    and "setDoc_rejects e ''metadata'' ''system'' = None"
  shows "response (GET cfg e db0) = \<lparr>status = 200, body = Refreshed 0\<rparr>
    \<and> issued (GET cfg e db0) = [List_repos]
    \<and> written (GET cfg e db0) = [(''metadata'', ''system'', metadata_doc e 0)]
    \<and> store (GET cfg e db0) ''prs'' = db0 ''prs''
    \<and> lastRefreshCount (store (GET cfg e db0)) = Some (Num 0)"
  using assms
  by (simp add: GET_def fetch_phase_def Let_def setDoc_def merge_doc_def lastRefreshCount_def
      metadata_doc_def split: option.splits)

theorem no_repositories_witness:
  "repos_api acme_empty = Resolved (Array [])
   \<and> setDoc_rejects acme_empty ''metadata'' ''system'' = None
   \<and> response (GET acme acme_empty old_db) = \<lparr>status = 200, body = Refreshed 0\<rparr>
   \<and> issued (GET acme acme_empty old_db) = [List_repos]
   \<and> written (GET acme acme_empty old_db) = [(''metadata'', ''system'', metadata_doc acme_empty 0)]
   \<and> store (GET acme acme_empty old_db) ''prs'' = old_db ''prs''
   \<and> lastRefreshCount (store (GET acme acme_empty old_db)) = Some (Num 0)
   \<and> lastRefreshCount old_db = None"
proof -
  have r: "repos_api acme_empty = Resolved (Array [])"
    by (simp add: acme_empty_def)
  have a: "setDoc_rejects acme_empty ''metadata'' ''system'' = None"
    by (simp add: acme_empty_def acme_env_def)
  have o: "lastRefreshCount old_db = None"
    by (simp add: lastRefreshCount_def old_db_def)
  from no_repositories [OF r a, of acme old_db] r a o show ?thesis
    by (intro conjI) simp_all
qed

text \<open>
  C7: when a refresh succeeds and a second refresh runs right after it, on the store that
  the first one left, against the same source and at a later time, both write the same
  sequence of records (same ids, same field values), the record collection after the
  second run is the one after the first, both answer with the same count, and after each
  run \<^verbatim>\<open>lastRefreshCount\<close> of the metadata document is the number of records.
\<close>

theorem refresh_twice_same_records:
  assumes "success (body (response (GET cfg e db0)))"
  shows "\<exists>recs.
     written (GET cfg e db0)
       = map record_write recs @ [(''metadata'', ''system'', metadata_doc e (length recs))]
     \<and> written (GET cfg (e\<lparr>now := t\<rparr>) (store (GET cfg e db0)))
       = map record_write recs
           @ [(''metadata'', ''system'', metadata_doc (e\<lparr>now := t\<rparr>) (length recs))]
     \<and> store (GET cfg (e\<lparr>now := t\<rparr>) (store (GET cfg e db0))) ''prs''
       = store (GET cfg e db0) ''prs''
     \<and> response (GET cfg e db0) = \<lparr>status = 200, body = Refreshed (length recs)\<rparr>
     \<and> response (GET cfg (e\<lparr>now := t\<rparr>) (store (GET cfg e db0)))
       = \<lparr>status = 200, body = Refreshed (length recs)\<rparr>
     \<and> lastRefreshCount (store (GET cfg e db0)) = Some (Num (length recs))
     \<and> lastRefreshCount (store (GET cfg (e\<lparr>now := t\<rparr>) (store (GET cfg e db0))))
       = Some (Num (length recs))"
proof -
  from assms obtain fs s1 where f: "fetch_phase cfg e = (None, fs)"
    and u: "upsert_all e (sort_js compare_typed (allPRs fs)) \<lparr>db = db0, writes = []\<rparr> = (None, s1)"
    and m: "setDoc_rejects e ''metadata'' ''system'' = None"
    by (rule GET_success)
  let ?recs = "sort_js compare_typed (allPRs fs)"
  let ?e' = "e\<lparr>now := t\<rparr>"
  let ?o1 = "GET cfg e db0"
  let ?o2 = "GET cfg ?e' (store ?o1)"
  have len: "length (allPRs fs) = length ?recs"
    by (simp add: length_sort_js_typed)
  note run1 = GET_run [OF f u m, unfolded len]
  have f': "fetch_phase cfg ?e' = (None, fs)"
    by (simp add: fetch_phase_now f)
  have "fst (upsert_all e ?recs \<lparr>db = store ?o1, writes = []\<rparr>) = None"
    by (rule upsert_all_accepting) (auto dest: upsert_all_None [OF u])
  then obtain s2 where u2: "upsert_all e ?recs \<lparr>db = store ?o1, writes = []\<rparr> = (None, s2)"
    by (cases "upsert_all e ?recs \<lparr>db = store ?o1, writes = []\<rparr>") simp
  then have u': "upsert_all ?e' ?recs \<lparr>db = store ?o1, writes = []\<rparr> = (None, s2)"
    by (simp add: upsert_all_now)
  have m': "setDoc_rejects ?e' ''metadata'' ''system'' = None"
    using m by simp
  note run2 = GET_run [OF f' u' m', unfolded len]
  have s1: "store ?o1 ''prs'' = db s1 ''prs''"
    by (simp add: run1 merge_doc_other)
  have s2: "store ?o2 ''prs'' = db s2 ''prs''"
    by (simp add: run2 merge_doc_other)
  have "db s2 ''prs'' k = db s1 ''prs'' k" for k
  proof (cases "filter (\<lambda>x. id_pr x = k) ?recs")
    case Nil
    then show ?thesis
      using upsert_all_db [OF u2, of k] s1 by simp
  next
    case (Cons x xs)
    then have one: "db s1 ''prs'' k = Some (base_doc db0 k ++ PR_doc (last (x # xs)))"
      using upsert_all_db [OF u, of k] by simp
    then have "base_doc (store ?o1) k = base_doc db0 k ++ PR_doc (last (x # xs))"
      by (simp add: base_doc_def s1)
    then have "db s2 ''prs'' k = Some (base_doc db0 k ++ PR_doc (last (x # xs)))"
      using upsert_all_db [OF u2, of k] Cons by (simp add: PR_doc_absorb)
    with one show ?thesis by simp
  qed
  then have same: "store ?o2 ''prs'' = store ?o1 ''prs''"
    by (simp add: s1 s2 fun_eq_iff)
  have "written ?o1
      = map record_write ?recs @ [(''metadata'', ''system'', metadata_doc e (length ?recs))]"
    by (simp add: run1)
  moreover have "written ?o2
      = map record_write ?recs @ [(''metadata'', ''system'', metadata_doc ?e' (length ?recs))]"
    by (simp add: run2)
  moreover have "response ?o1 = \<lparr>status = 200, body = Refreshed (length ?recs)\<rparr>"
    by (simp add: run1)
  moreover have "response ?o2 = \<lparr>status = 200, body = Refreshed (length ?recs)\<rparr>"
    by (simp add: run2)
  moreover have "lastRefreshCount (store ?o1) = Some (Num (length ?recs))"
    by (simp add: run1 lastRefreshCount_merge)
  moreover have "lastRefreshCount (store ?o2) = Some (Num (length ?recs))"
    by (simp add: run2 lastRefreshCount_merge)
  ultimately show ?thesis
    using same by blast
qed

theorem refresh_twice_same_records_witness:
  "success (body (response (GET acme acme_env old_db)))
   \<and> store (GET acme (acme_env\<lparr>now := ''2024-05-02T08:05:00.000Z''\<rparr>)
              (store (GET acme acme_env old_db))) ''prs''
       = store (GET acme acme_env old_db) ''prs''
   \<and> map fst (written (GET acme (acme_env\<lparr>now := ''2024-05-02T08:05:00.000Z''\<rparr>)
                           (store (GET acme acme_env old_db))))
       = map fst (written (GET acme acme_env old_db))
   \<and> lastRefreshCount (store (GET acme acme_env old_db)) = Some (Num 3)
   \<and> lastRefreshCount (store (GET acme (acme_env\<lparr>now := ''2024-05-02T08:05:00.000Z''\<rparr>)
                                   (store (GET acme acme_env old_db)))) = Some (Num 3)
   \<and> response (GET acme (acme_env\<lparr>now := ''2024-05-02T08:05:00.000Z''\<rparr>)
                  (store (GET acme acme_env old_db)))
       = \<lparr>status = 200, body = Refreshed 3\<rparr>"
proof -
  have ok: "success (body (response (GET acme acme_env old_db)))"
    by (simp add: acme_env_GET)
  from refresh_twice_same_records [OF ok, of "''2024-05-02T08:05:00.000Z''"]
  obtain recs where
    w1: "written (GET acme acme_env old_db)
       = map record_write recs @ [(''metadata'', ''system'', metadata_doc acme_env (length recs))]"
    and w2: "written (GET acme (acme_env\<lparr>now := ''2024-05-02T08:05:00.000Z''\<rparr>)
                        (store (GET acme acme_env old_db)))
       = map record_write recs
           @ [(''metadata'', ''system'',
               metadata_doc (acme_env\<lparr>now := ''2024-05-02T08:05:00.000Z''\<rparr>) (length recs))]"
    and st: "store (GET acme (acme_env\<lparr>now := ''2024-05-02T08:05:00.000Z''\<rparr>)
                      (store (GET acme acme_env old_db))) ''prs''
       = store (GET acme acme_env old_db) ''prs''"
    and r2: "response (GET acme (acme_env\<lparr>now := ''2024-05-02T08:05:00.000Z''\<rparr>)
                         (store (GET acme acme_env old_db)))
       = \<lparr>status = 200, body = Refreshed (length recs)\<rparr>"
    and c1: "lastRefreshCount (store (GET acme acme_env old_db)) = Some (Num (length recs))"
    and c2: "lastRefreshCount (store (GET acme (acme_env\<lparr>now := ''2024-05-02T08:05:00.000Z''\<rparr>)
                                   (store (GET acme acme_env old_db)))) = Some (Num (length recs))"
    by blast
  have "length (written (GET acme acme_env old_db)) = 4"
    by (simp add: acme_env_GET)
  with w1 have n: "length recs = 3"
    by simp
  from w1 w2 have "map fst (written (GET acme (acme_env\<lparr>now := ''2024-05-02T08:05:00.000Z''\<rparr>)
                           (store (GET acme acme_env old_db))))
       = map fst (written (GET acme acme_env old_db))"
    by simp
  with ok st r2 c1 c2 n show ?thesis
    by simp
qed

text \<open>
  C8: when the refresh succeeds and writes a record under a key that already had a
  document, the document found under the key afterwards takes each field of the written
  record from the record (from the last record written under that key, all of which
  have the same fields), and keeps every other field of the old document unchanged.
\<close>

theorem upsert_merges:
  assumes "success (body (response (GET cfg e db0)))"
    and "(''prs'', k, d) \<in> set (written (GET cfg e db0))"
    and "db0 ''prs'' k = Some old"
  shows "\<exists>new d'.
     store (GET cfg e db0) ''prs'' k = Some new
     \<and> (''prs'', k, d') \<in> set (written (GET cfg e db0))
     \<and> dom d' = dom d
     \<and> (\<forall>f. new f = (case d' f of Some v \<Rightarrow> Some v | None \<Rightarrow> old f))"
proof -
  from assms(1) obtain fs s1 where f: "fetch_phase cfg e = (None, fs)"
    and u: "upsert_all e (sort_js compare_typed (allPRs fs)) \<lparr>db = db0, writes = []\<rparr> = (None, s1)"
    and m: "setDoc_rejects e ''metadata'' ''system'' = None"
    by (rule GET_success)
  let ?recs = "sort_js compare_typed (allPRs fs)"
  note run = GET_run [OF f u m]
  from assms(2) obtain r where r: "r \<in> set ?recs" and k: "id_pr r = k" and d: "d = PR_doc r"
    by (auto simp: run record_write_def)
  then have "filter (\<lambda>x. id_pr x = k) ?recs \<noteq> []"
    by (auto simp: filter_empty_conv)
  then obtain x xs where xs: "filter (\<lambda>x. id_pr x = k) ?recs = x # xs"
    by (cases "filter (\<lambda>x. id_pr x = k) ?recs") auto
  let ?l = "last (x # xs)"
  have "?l \<in> set (filter (\<lambda>x. id_pr x = k) ?recs)"
    unfolding xs by (rule last_in_set) simp
  then have l: "?l \<in> set ?recs" "id_pr ?l = k"
    by simp_all
  have "db s1 ''prs'' k = Some (base_doc db0 k ++ PR_doc ?l)"
    using upsert_all_db [OF u, of k] xs by simp
  then have new: "store (GET cfg e db0) ''prs'' k = Some (old ++ PR_doc ?l)"
    by (simp add: run merge_doc_other base_doc_def assms(3))
  moreover have "(''prs'', k, PR_doc ?l) \<in> set (written (GET cfg e db0))"
    using l by (auto simp: run record_write_def)
  moreover have "dom (PR_doc ?l) = dom d"
    by (simp only: d dom_PR_doc)
  moreover have "(old ++ PR_doc ?l) g = (case PR_doc ?l g of Some v \<Rightarrow> Some v | None \<Rightarrow> old g)"
    for g
    by (simp add: map_add_def)
  ultimately show ?thesis by blast
qed

theorem upsert_merges_witness:
  "success (body (response (GET acme acme_env old_db)))
   \<and> (''prs'', ''web-12'', PR_doc (make_PR acme ''web'' (pull 12 ''Add login'' False) octocat 2))
        \<in> set (written (GET acme acme_env old_db))
   \<and> old_db ''prs'' ''web-12'' = Some [''approvals'' \<mapsto> Num 0, ''label'' \<mapsto> Str ''urgent'']
   \<and> (\<exists>new. store (GET acme acme_env old_db) ''prs'' ''web-12'' = Some new
         \<and> new ''label'' = Some (Str ''urgent'')
         \<and> new ''approvals'' = Some (Num 2)
         \<and> new ''title'' = Some (Str ''Add login''))"
proof -
  let ?r = "make_PR acme ''web'' (pull 12 ''Add login'' False) octocat 2"
  have ok: "success (body (response (GET acme acme_env old_db)))"
    by (simp add: acme_env_GET)
  have keys: "string_of_nat 12 = ''12''" "string_of_nat 15 = ''15''" "string_of_nat 7 = ''7''"
    by (simp_all add: string_of_nat_small string_of_nat_large digit_char_def)
  have ids: "id_pr ?r = ''web-12''"
    "id_pr (make_PR acme ''web'' (pull 15 ''Fix typo'' False) octocat 0) = ''web-15''"
    "id_pr (make_PR acme ''api'' (pull 7 ''Bump deps'' False) octocat 2) = ''api-7''"
    by (simp_all add: make_PR_def pull_def keys)
  have w: "(''prs'', ''web-12'', PR_doc ?r) \<in> set (written (GET acme acme_env old_db))"
    by (simp add: acme_env_GET record_write_def ids)
  have old: "old_db ''prs'' ''web-12'' = Some [''approvals'' \<mapsto> Num 0, ''label'' \<mapsto> Str ''urgent'']"
    by (simp add: old_db_def)
  from upsert_merges [OF ok w old]
  obtain new d' where new: "store (GET acme acme_env old_db) ''prs'' ''web-12'' = Some new"
    and d': "(''prs'', ''web-12'', d') \<in> set (written (GET acme acme_env old_db))"
    and f: "\<And>f. new f = (case d' f of Some v \<Rightarrow> Some v
                            | None \<Rightarrow> [''approvals'' \<mapsto> Num 0, ''label'' \<mapsto> Str ''urgent''] f)"
    by blast
  from d' have "d' = PR_doc ?r"
    by (simp add: acme_env_GET record_write_def ids)
  then have "d' ''label'' = None" "d' ''approvals'' = Some (Num 2)"
    "d' ''title'' = Some (Str ''Add login'')"
    by (simp_all add: PR_doc_def make_PR_def pull_def)
  with f [of "''label''"] f [of "''approvals''"] f [of "''title''"]
  have "new ''label'' = Some (Str ''urgent'')" "new ''approvals'' = Some (Num 2)"
    "new ''title'' = Some (Str ''Add login'')"
    by simp_all
  with ok w old new show ?thesis
    by blast
qed

text \<open>
  C9: the typed route and the untyped variant are the same function of the
  configuration, the environment and the prior store: they issue the same requests,
  perform the same writes, leave the same store and return the same response.
\<close>

theorem GET_untyped_equivalent: "GET_untyped cfg e db0 = GET cfg e db0"
  by (simp only: GET_untyped_def GET_def compare_untyped_typed)

theorem GET_untyped_equivalent_witness:
  "GET_untyped acme acme_env old_db = GET acme acme_env old_db \<and>
   response (GET_untyped acme acme_env old_db) = \<lparr>status = 200, body = Refreshed 3\<rparr>"
proof -
  have "response (GET acme acme_env old_db) = \<lparr>status = 200, body = Refreshed 3\<rparr>"
    by (simp add: GET_def fetch_phase_def acme_env_def Let_def pull_def review_def
        make_PR_def approvalCount_def compare_typed_def or_zero_def setDoc_def)
  then show ?thesis
    using GET_untyped_equivalent [of acme acme_env old_db] by simp
qed

text \<open>
  C10: every write to the record collection stores under its key a document body whose
  \<^verbatim>\<open>id\<close> field is that key; when the store accepts the write, the document found
  under the key after the refresh has the key as its \<^verbatim>\<open>id\<close> field.
\<close>

theorem key_is_id_field:
  assumes "(''prs'', k, d) \<in> set (written (GET cfg e db0))"
  shows "d ''id'' = Some (Str k) \<and>
    (setDoc_rejects e ''prs'' k = None \<longrightarrow>
       (\<exists>doc. store (GET cfg e db0) ''prs'' k = Some doc \<and> doc ''id'' = Some (Str k)))"
proof -
  from GET_written_prs [OF assms]
  obtain r where r: "r \<in> set (allPRs (snd (fetch_phase cfg e)))" and k: "k = id_pr r"
    and d: "d = PR_doc r"
    by blast
  obtain res fs where f: "fetch_phase cfg e = (res, fs)"
    by (cases "fetch_phase cfg e")
  obtain r1 s1 where u:
    "upsert_all e (sort_js compare_typed (allPRs fs)) \<lparr>db = db0, writes = []\<rparr> = (r1, s1)"
    by (cases "upsert_all e (sort_js compare_typed (allPRs fs)) \<lparr>db = db0, writes = []\<rparr>")
  from assms f have res: "res = None"
    by (cases res) (simp_all add: GET_thrown_written)
  have "keyed (store (GET cfg e db0)) k" if "setDoc_rejects e ''prs'' k = None"
  proof -
    from r f have "r \<in> set (sort_js compare_typed (allPRs fs))"
      by (simp add: set_sort_js_typed)
    from upsert_all_keyed [OF u this] that k have "keyed (db s1) k"
      by simp
    with GET_store_prs [OF f [unfolded res] u] show ?thesis
      by (simp add: keyed_def)
  qed
  with d k show ?thesis
    by (simp add: PR_doc_id keyed_def)
qed

theorem key_is_id_field_witness:
  "(''prs'', ''web-12'', PR_doc (make_PR acme ''web'' (pull 12 ''Add login'' False) octocat 2))
      \<in> set (written (GET acme acme_env old_db))
   \<and> PR_doc (make_PR acme ''web'' (pull 12 ''Add login'' False) octocat 2) ''id'' = Some (Str ''web-12'')
   \<and> (\<exists>doc. store (GET acme acme_env old_db) ''prs'' ''web-12'' = Some doc
          \<and> doc ''id'' = Some (Str ''web-12''))"
proof -
  have "string_of_nat 12 = ''12''"
    by (simp add: string_of_nat_small string_of_nat_large digit_char_def)
  then have k: "id_pr (make_PR acme ''web'' (pull 12 ''Add login'' False) octocat 2) = ''web-12''"
    by (simp add: make_PR_def pull_def)
  have w: "(''prs'', ''web-12'', PR_doc (make_PR acme ''web'' (pull 12 ''Add login'' False) octocat 2))
      \<in> set (written (GET acme acme_env old_db))"
    by (simp add: acme_env_GET record_write_def k)
  from key_is_id_field [OF w] w acme_env_accepts [of "''prs''" "''web-12''"] show ?thesis
    by (intro conjI) simp_all
qed

end
